theory Spec2Isabelle
  imports Main "HOL-Library.Word" "HOL-Library.Log_Nat" "HOL-Library.Multiset"
begin

section \<open>Symbol tables: the BST backend and the hash-table backend\<close>

text \<open>
  The development embeds the two C programs \<^verbatim>\<open>st_bst.c\<close> and \<^verbatim>\<open>st_hashtable.c\<close>.

  Conventions of the embedding.
  \<^item> A C string is the list of its bytes before the terminating NUL, so the end of the
    list plays the role of the terminator and the list of a C string holds no NUL byte.
  \<^item> A C \<^verbatim>\<open>int\<close> is a mathematical integer: signed overflow is undefined in C, and the
    model describes the runs in which no counter leaves the range of \<^verbatim>\<open>int\<close>. For a
    hash table with up to 503316480 names all counters stay below \<open>2 ^ 31\<close>
    (\<open>ht_after_int_range\<close>); the capacity would leave the range only with about
    \<open>10 ^ 9\<close> entries.
  \<^item> \<^verbatim>\<open>unsigned long\<close> is a 64-bit word and \<^verbatim>\<open>unsigned int\<close> a 32-bit word (LP64);
    their arithmetic wraps around. Plain \<^verbatim>\<open>char\<close> is signed, as on x86-64; this
    matters only for the hash of a name with a byte above 127.
  \<^item> \<^verbatim>\<open>float\<close> is IEEE 754 binary32 with round-to-nearest, ties-to-even; a value is
    represented by the rational number it denotes.
  \<^item> \<^verbatim>\<open>malloc\<close>, \<^verbatim>\<open>calloc\<close> and \<^verbatim>\<open>strdup\<close> succeed; the text written by
    \<^verbatim>\<open>printf\<close> is not part of the state, except for the lines of the in-order traversal,
    which are the result of \<open>inorder_traversal\<close>.
  \<^item> Pointers into a tree or a chain are the tree or the list itself: a node owns its
    children and an entry owns the rest of its chain, so nothing is shared.
\<close>

subsection \<open>\<^verbatim>\<open>strcmp\<close>\<close>

text \<open>
  The bytes are compared as \<^verbatim>\<open>unsigned char\<close>; only the sign of the result is fixed by
  the C standard, so the model returns \<open>-1\<close>, \<open>0\<close> or \<open>1\<close>.
\<close>

fun strcmp :: "string \<Rightarrow> string \<Rightarrow> int" where
  "strcmp [] [] = 0"
| "strcmp [] (b # bs) = -1"
| "strcmp (a # as) [] = 1"
| "strcmp (a # as) (b # bs) =
     (if (of_char a :: nat) < of_char b then -1
      else if (of_char a :: nat) > of_char b then 1
      else strcmp as bs)"

subsection \<open>The BST backend (\<^verbatim>\<open>st_bst.c\<close>)\<close>

text \<open>A node holds its name, its position, its left child and its right child.\<close>

datatype BSTNode = NULL | BSTNode string int BSTNode BSTNode

record SymbolTableBST =
  root :: BSTNode
  size_bst :: int

definition st_create_bst :: "SymbolTableBST" where
  "st_create_bst = \<lparr>root = NULL, size_bst = 0\<rparr>"

definition create_node :: "string \<Rightarrow> int \<Rightarrow> BSTNode" where
  "create_node name position = BSTNode name position NULL NULL"

text \<open>
  \<open>insert_node\<close> writes through the pointers \<^verbatim>\<open>position\<close> and \<^verbatim>\<open>found\<close>; the model
  takes their contents and returns the new tree together with the new contents.
\<close>

fun insert_node :: "BSTNode \<Rightarrow> string \<Rightarrow> int \<Rightarrow> bool \<Rightarrow> BSTNode \<times> int \<times> bool" where
  "insert_node NULL name position found = (create_node name position, position, False)"
| "insert_node (BSTNode rname rposition l r) name position found =
     (let cmp = strcmp name rname in
      if cmp < 0 then
        (case insert_node l name position found of
           (l', position', found') \<Rightarrow> (BSTNode rname rposition l' r, position', found'))
      else if cmp > 0 then
        (case insert_node r name position found of
           (r', position', found') \<Rightarrow> (BSTNode rname rposition l r', position', found'))
      else (BSTNode rname rposition l r, rposition, True))"

definition st_add_bst :: "SymbolTableBST \<Rightarrow> string \<Rightarrow> int \<times> SymbolTableBST" where
  "st_add_bst st name =
     (case insert_node (root st) name (size_bst st) False of
        (root', position, found) \<Rightarrow>
          (position,
           \<lparr>root = root', size_bst = (if \<not> found then size_bst st + 1 else size_bst st)\<rparr>))"

fun search_node :: "BSTNode \<Rightarrow> string \<Rightarrow> BSTNode" where
  "search_node NULL name = NULL"
| "search_node (BSTNode rname rposition l r) name =
     (let cmp = strcmp name rname in
      if cmp < 0 then search_node l name
      else if cmp > 0 then search_node r name
      else BSTNode rname rposition l r)"

definition st_search_bst :: "SymbolTableBST \<Rightarrow> string \<Rightarrow> int" where
  "st_search_bst st name =
     (case search_node (root st) name of
        NULL \<Rightarrow> -1
      | BSTNode rname rposition l r \<Rightarrow> rposition)"

text \<open>The in-order traversal prints one line per node: the result is the list of the
  printed pairs.\<close>

fun inorder_traversal :: "BSTNode \<Rightarrow> (string \<times> int) list" where
  "inorder_traversal NULL = []"
| "inorder_traversal (BSTNode rname rposition l r) =
     inorder_traversal l @ [(rname, rposition)] @ inorder_traversal r"

text \<open>A sequence of \<open>st_add\<close> calls, collecting the returned positions.\<close>

fun add_all_bst :: "SymbolTableBST \<Rightarrow> string list \<Rightarrow> int list \<times> SymbolTableBST" where
  "add_all_bst st [] = ([], st)"
| "add_all_bst st (n # ns) =
     (case st_add_bst st n of
        (p, st1) \<Rightarrow> (case add_all_bst st1 ns of (ps, st2) \<Rightarrow> (p # ps, st2)))"

subsection \<open>The hash-table backend (\<^verbatim>\<open>st_hashtable.c\<close>)\<close>

text \<open>An entry holds its name and its position; its \<^verbatim>\<open>next\<close> pointer is the rest of
  the list that models its chain.\<close>

record HTEntry =
  name :: string
  position :: int

record SymbolTableHT =
  buckets :: "HTEntry list list"
  capacity :: int
  size_ht :: int
  next_position :: int

definition INITIAL_TABLE_SIZE :: int where
  "INITIAL_TABLE_SIZE = 10"

definition LOAD_FACTOR_THRESHOLD :: rat where
  "LOAD_FACTOR_THRESHOLD = 3 / 4"

definition st_create_ht :: "SymbolTableHT" where
  "st_create_ht =
     \<lparr>buckets = replicate (nat INITIAL_TABLE_SIZE) [],
      capacity = INITIAL_TABLE_SIZE, size_ht = 0, next_position = 0\<rparr>"

text \<open>
  The loop of \<open>hash_function\<close>: \<^verbatim>\<open>c\<close> is the \<^verbatim>\<open>int\<close> read from a signed \<^verbatim>\<open>char\<close>, and
  adding it to the \<^verbatim>\<open>unsigned long\<close> converts it modulo \<open>2 ^ 64\<close>.
\<close>

definition char_to_int :: "char \<Rightarrow> int" where
  "char_to_int ch = sint (of_char ch :: 8 word)"

fun hash_loop :: "64 word \<Rightarrow> string \<Rightarrow> 64 word" where
  "hash_loop hash [] = hash"
| "hash_loop hash (ch # str) =
     (let c = char_to_int ch in hash_loop ((push_bit 5 hash + hash) + word_of_int c) str)"

text \<open>\<^verbatim>\<open>hash % capacity\<close> converts \<^verbatim>\<open>capacity\<close> to \<^verbatim>\<open>unsigned long\<close>; the result is
  converted to \<^verbatim>\<open>unsigned int\<close>.\<close>

definition hash_function :: "string \<Rightarrow> int \<Rightarrow> 32 word" where
  "hash_function str cap = ucast (hash_loop 5381 str mod (word_of_int cap :: 64 word))"

definition create_entry :: "string \<Rightarrow> int \<Rightarrow> HTEntry" where
  "create_entry nm pos = \<lparr>name = nm, position = pos\<rparr>"

text \<open>The inner loop of \<open>st_resize\<close>: every entry of an old chain becomes the head of
  its new bucket.\<close>

fun rehash_chain :: "HTEntry list \<Rightarrow> SymbolTableHT \<Rightarrow> SymbolTableHT" where
  "rehash_chain [] st = st"
| "rehash_chain (entry # next) st =
     (let index = unat (hash_function (name entry) (capacity st)) in
      rehash_chain next
        (st\<lparr>buckets := (buckets st)[index := entry # (buckets st ! index)],
            size_ht := size_ht st + 1\<rparr>))"

text \<open>The outer loop of \<open>st_resize\<close>, from bucket \<open>i\<close> on.\<close>

function rehash_from :: "nat \<Rightarrow> nat \<Rightarrow> HTEntry list list \<Rightarrow> SymbolTableHT \<Rightarrow> SymbolTableHT" where
  "rehash_from i old_capacity old_buckets st =
     (if i < old_capacity
      then rehash_from (i + 1) old_capacity old_buckets (rehash_chain (old_buckets ! i) st)
      else st)"
  by pat_completeness auto
termination
  by (relation "measure (\<lambda>(i, old_capacity, old_buckets, st). old_capacity - i)") auto

declare rehash_from.simps [simp del]

definition st_resize :: "SymbolTableHT \<Rightarrow> SymbolTableHT" where
  "st_resize st =
     (let old_capacity = capacity st;
          old_buckets = buckets st;
          st1 = st\<lparr>capacity := capacity st * 2\<rparr>;
          st2 = st1\<lparr>buckets := replicate (nat (capacity st1)) []\<rparr>;
          st3 = st2\<lparr>size_ht := 0\<rparr>
      in rehash_from 0 (nat old_capacity) old_buckets st3)"

text \<open>The loop of \<open>st_search\<close> over one chain.\<close>

fun search_chain :: "HTEntry list \<Rightarrow> string \<Rightarrow> int" where
  "search_chain [] nm = -1"
| "search_chain (entry # next) nm =
     (if strcmp (name entry) nm = 0 then position entry else search_chain next nm)"

definition st_search_ht :: "SymbolTableHT \<Rightarrow> string \<Rightarrow> int" where
  "st_search_ht st nm =
     (let index = unat (hash_function nm (capacity st)) in
      search_chain (buckets st ! index) nm)"

subsection \<open>The load factor, in binary32 arithmetic\<close>

text \<open>
  \<open>float_exponent x\<close> is the exponent \<open>e\<close> with \<open>2 ^ e \<le> x < 2 ^ (e + 1)\<close> of a positive
  rational; \<open>float_round\<close> rounds a rational to the nearest number with a 24-bit
  significand, ties to the even significand. The range of the exponent is not limited:
  the quotients formed here lie far from the ends of the binary32 range.
\<close>

definition float_exponent :: "rat \<Rightarrow> int" where
  "float_exponent x =
     (case quotient_of x of
        (p, q) \<Rightarrow>
          (let d = int (floorlog 2 (nat p)) - int (floorlog 2 (nat q))
           in if 2 powi d \<le> x then d else d - 1))"

definition float_round_pos :: "rat \<Rightarrow> rat" where
  "float_round_pos x =
     (let u = 2 powi (float_exponent x - 23);
          m = x / u;
          q = \<lfloor>m\<rfloor>;
          r = m - of_int q
      in (if r < 1 / 2 \<or> (r = 1 / 2 \<and> even q) then of_int q else of_int q + 1) * u)"

definition float_round :: "rat \<Rightarrow> rat" where
  "float_round x =
     (if x = 0 then 0 else if 0 < x then float_round_pos x else - float_round_pos (- x))"

text \<open>\<^verbatim>\<open>(float)(st->size + 1) / st->capacity\<close>: both operands are converted to
  \<^verbatim>\<open>float\<close>, and the quotient is rounded.\<close>

definition load_factor_of :: "SymbolTableHT \<Rightarrow> rat" where
  "load_factor_of st =
     float_round (float_round (of_int (size_ht st + 1)) / float_round (of_int (capacity st)))"

definition st_add_ht :: "SymbolTableHT \<Rightarrow> string \<Rightarrow> int \<times> SymbolTableHT" where
  "st_add_ht st nm =
     (let existing_pos = st_search_ht st nm in
      if existing_pos \<noteq> -1 then (existing_pos, st)
      else
        (let load_factor = load_factor_of st;
             st1 = (if load_factor > LOAD_FACTOR_THRESHOLD then st_resize st else st);
             index = unat (hash_function nm (capacity st1));
             pos = next_position st1;
             st2 = st1\<lparr>next_position := next_position st1 + 1\<rparr>;
             new_entry = create_entry nm pos;
             st3 = st2\<lparr>buckets := (buckets st2)[index := new_entry # (buckets st2 ! index)]\<rparr>;
             st4 = st3\<lparr>size_ht := size_ht st3 + 1\<rparr>
         in (pos, st4)))"

fun add_all_ht :: "SymbolTableHT \<Rightarrow> string list \<Rightarrow> int list \<times> SymbolTableHT" where
  "add_all_ht st [] = ([], st)"
| "add_all_ht st (n # ns) =
     (case st_add_ht st n of
        (p, st1) \<Rightarrow> (case add_all_ht st1 ns of (ps, st2) \<Rightarrow> (p # ps, st2)))"

subsection \<open>Notions used by the properties\<close>

text \<open>The names stored in a tree, the search-tree ordering with respect to \<open>strcmp\<close>,
  and the position held by the node a search returns (\<open>-1\<close> for the null pointer).\<close>

fun names_of :: "BSTNode \<Rightarrow> string set" where
  "names_of NULL = {}"
| "names_of (BSTNode rname rposition l r) = names_of l \<union> {rname} \<union> names_of r"

fun bst_ordered :: "BSTNode \<Rightarrow> bool" where
  "bst_ordered NULL = True"
| "bst_ordered (BSTNode rname rposition l r) =
     ((\<forall>k \<in> names_of l. strcmp k rname < 0) \<and> (\<forall>k \<in> names_of r. 0 < strcmp k rname)
      \<and> bst_ordered l \<and> bst_ordered r)"

fun node_position :: "BSTNode \<Rightarrow> int" where
  "node_position NULL = -1"
| "node_position (BSTNode rname rposition l r) = rposition"

text \<open>The invariant of the BST table: the tree is ordered and \<open>size\<close> counts its names.\<close>

definition bst_inv :: "SymbolTableBST \<Rightarrow> bool" where
  "bst_inv st \<longleftrightarrow> bst_ordered (root st) \<and> size_bst st = int (card (names_of (root st)))"

text \<open>The entries of a hash table, bucket by bucket; \<open>ht_placed\<close>: the bucket array has
  \<open>capacity\<close> cells and every entry lies in the bucket of its hash; \<open>ht_inv\<close>: moreover
  no name occurs twice, \<open>size\<close> counts the entries, \<open>next_position\<close> equals \<open>size\<close>, and
  the positions handed out are natural numbers below \<open>next_position\<close>.\<close>

definition ht_entries :: "SymbolTableHT \<Rightarrow> HTEntry list" where
  "ht_entries st = concat (buckets st)"

definition ht_placed :: "SymbolTableHT \<Rightarrow> bool" where
  "ht_placed st \<longleftrightarrow>
     0 < capacity st \<and> length (buckets st) = nat (capacity st) \<and>
     (\<forall>i < length (buckets st). \<forall>e \<in> set (buckets st ! i).
        unat (hash_function (name e) (capacity st)) = i)"

definition ht_inv :: "SymbolTableHT \<Rightarrow> bool" where
  "ht_inv st \<longleftrightarrow>
     ht_placed st \<and> distinct (map name (ht_entries st)) \<and>
     size_ht st = int (length (ht_entries st)) \<and> next_position st = size_ht st \<and>
     (\<forall>e \<in> set (ht_entries st). 0 \<le> position e \<and> position e < next_position st)"

text \<open>The last part of \<open>st_add\<close>, after the search has failed and the table has been
  resized if needed: the new entry becomes the head of its bucket.\<close>

definition ht_insert :: "SymbolTableHT \<Rightarrow> string \<Rightarrow> SymbolTableHT" where
  "ht_insert st nm =
     (let index = unat (hash_function nm (capacity st)) in
      st\<lparr>next_position := next_position st + 1,
         buckets := (buckets st)[index := create_entry nm (next_position st) # (buckets st ! index)],
         size_ht := size_ht st + 1\<rparr>)"

text \<open>The names held by a hash table; the conditional resize at the start of the
  insertion branch of \<open>st_add\<close>; the tables reached from a fresh table by a sequence of
  \<open>st_add\<close> calls.\<close>

definition ht_names :: "SymbolTableHT \<Rightarrow> string set" where
  "ht_names st = name ` set (ht_entries st)"

definition maybe_resize :: "SymbolTableHT \<Rightarrow> SymbolTableHT" where
  "maybe_resize st = (if load_factor_of st > LOAD_FACTOR_THRESHOLD then st_resize st else st)"

definition bst_after :: "string list \<Rightarrow> SymbolTableBST" where
  "bst_after ns = snd (add_all_bst st_create_bst ns)"

definition ht_after :: "string list \<Rightarrow> SymbolTableHT" where
  "ht_after ns = snd (add_all_ht st_create_ht ns)"

text \<open>The invariant behind the load factor: the capacity is \<open>10 * 2 ^ k\<close>, the table is
  at most three quarters full, and a table that has grown is more than three eighths
  full.\<close>

definition load_inv :: "SymbolTableHT \<Rightarrow> bool" where
  "load_inv st \<longleftrightarrow>
     ht_inv st \<and> (\<exists>k. capacity st = 10 * 2 ^ k) \<and> 4 * size_ht st \<le> 3 * capacity st \<and>
     (capacity st = 10 \<or> 3 * capacity st < 8 * size_ht st)"

text \<open>The part of it that holds for tables of every size: a table that has grown is
  more than three eighths full.\<close>

definition grown_inv :: "SymbolTableHT \<Rightarrow> bool" where
  "grown_inv st \<longleftrightarrow>
     ht_inv st \<and> (\<exists>k. capacity st = 10 * 2 ^ k) \<and>
     (capacity st = 10 \<or> 3 * capacity st < 8 * size_ht st)"

text \<open>A supply of pairwise distinct names: \<open>s\<close> followed by the binary digits of a
  number, least significant digit first.\<close>

fun name_bits :: "nat \<Rightarrow> string" where
  "name_bits n =
     (if n = 0 then [] else (if even n then CHR ''0'' else CHR ''1'') # name_bits (n div 2))"

declare name_bits.simps [simp del]

definition symbol_name :: "nat \<Rightarrow> string" where
  "symbol_name n = CHR ''s'' # name_bits n"

text \<open>The hash as the specification words it: seed 5381, then \<open>hash * 33 + c\<close> for
  each byte \<open>c\<close> of the name, a number from 0 to 255, in wrapping 64-bit arithmetic.\<close>

definition djb2_step :: "64 word \<Rightarrow> char \<Rightarrow> 64 word" where
  "djb2_step hash ch = hash * 33 + of_nat (of_char ch)"

definition djb2 :: "string \<Rightarrow> 64 word" where
  "djb2 str = foldl djb2_step 5381 str"

section \<open>Properties\<close>

subsection \<open>\<open>strcmp\<close> is a strict linear order on names\<close>

lemma strcmp_refl: "strcmp a a = 0"
  by (induction a) simp_all

lemma strcmp_eq_0: "strcmp a b = 0 \<longleftrightarrow> a = b"
proof (induction a b rule: strcmp.induct)
  case (4 a as b bs)
  then show ?case
    by (auto simp: of_char_eq_iff dest: antisym_conv3)
qed simp_all

lemma strcmp_swap: "strcmp a b < 0 \<longleftrightarrow> 0 < strcmp b a"
  by (induction a b rule: strcmp.induct) auto

lemma strcmp_trans: "strcmp a b < 0 \<Longrightarrow> strcmp b c < 0 \<Longrightarrow> strcmp a c < 0"
proof (induction a arbitrary: b c)
  case Nil
  then show ?case by (cases b; cases c) auto
next
  case (Cons x xs)
  show ?case
  proof (cases b)
    case Nil
    with Cons.prems show ?thesis by simp
  next
    case b: (Cons y ys)
    show ?thesis
    proof (cases c)
      case Nil
      with Cons.prems b show ?thesis by simp
    next
      case c: (Cons z zs)
      from Cons.prems b c Cons.IH [of ys zs] show ?thesis
        by (auto split: if_splits)
    qed
  qed
qed

lemma strcmp_cases:
  obtains (lt) "strcmp a b < 0" | (gt) "0 < strcmp a b" | (eq) "a = b"
  using strcmp_eq_0 [of a b] by (cases "strcmp a b < 0"; cases "0 < strcmp a b") auto

lemma strcmp_lexord:
  "strcmp a b < 0 \<longleftrightarrow> (a, b) \<in> lexord {(x, y). (of_char x :: nat) < of_char y}"
  by (induction a b rule: strcmp.induct) (auto simp: of_char_eq_iff)

lemma strcmp_sorted_distinct: "sorted_wrt (\<lambda>a b. strcmp a b < 0) xs \<Longrightarrow> distinct xs"
  by (induction xs) (auto simp: strcmp_refl)

subsection \<open>The hash function\<close>

lemma unat_word_of_int_64: "unat (word_of_int k :: 64 word) = nat (k mod 2 ^ 64)"
  by (simp add: unat_eq_nat_uint uint_word_of_int)

lemma unat_ucast_64_32: "unat (ucast (w :: 64 word) :: 32 word) = unat w mod 2 ^ 32"
  by (simp add: unsigned_ucast_eq take_bit_eq_mod)

lemma unat_ucast_le: "unat (ucast (w :: 64 word) :: 32 word) \<le> unat w"
  by (simp add: unat_ucast_64_32)

lemma hash_function_less:
  assumes "0 < cap"
  shows "unat (hash_function str cap) < nat cap"
proof (cases "cap < 2 ^ 64")
  case True
  with assms have u: "unat (word_of_int cap :: 64 word) = nat cap"
    by (simp add: unat_word_of_int_64)
  have "unat (hash_loop 5381 str mod (word_of_int cap :: 64 word)) < nat cap"
    using assms by (simp add: unat_mod u)
  then show ?thesis
    unfolding hash_function_def using unat_ucast_le le_less_trans by blast
next
  case False
  have "unat (hash_function str cap) < 2 ^ 32"
    using unsigned_less [of "hash_function str cap", where ?'a = nat] by simp
  also have "(2::nat) ^ 32 < nat cap"
    using False by simp
  finally show ?thesis .
qed

lemma hash_function_exact:
  assumes "0 < cap" "cap < 2 ^ 31"
  shows "unat (hash_function str cap) = unat (hash_loop 5381 str) mod nat cap"
proof -
  from assms have u: "unat (word_of_int cap :: 64 word) = nat cap"
    by (simp add: unat_word_of_int_64)
  have "unat (hash_loop 5381 str) mod nat cap < nat cap"
    using assms by simp
  also have "nat cap < 2 ^ 32"
    using assms by simp
  finally show ?thesis
    by (simp add: hash_function_def unat_ucast_64_32 unat_mod u)
qed

lemma push_bit_5_plus: "push_bit 5 h + h = h * (33 :: 64 word)"
  by (simp add: push_bit_eq_mult)

lemma hash_loop_fold:
  "hash_loop h str = foldl (\<lambda>hash ch. hash * 33 + word_of_int (char_to_int ch)) h str"
  by (induction str arbitrary: h) (simp_all add: push_bit_5_plus Let_def)

lemma char_to_int_ascii:
  assumes "(of_char ch :: nat) < 128"
  shows "char_to_int ch = int (of_char ch)"
proof -
  have "unat (of_nat (of_char ch) :: 8 word) = of_char ch mod 2 ^ 8"
    by (simp only: unat_of_nat) simp
  then have "unat (of_char ch :: 8 word) = of_char ch"
    using assms by (simp add: of_nat_of_char)
  then have "uint (of_char ch :: 8 word) = int (of_char ch)"
    by (simp add: uint_nat)
  then show ?thesis
    using assms by (simp add: char_to_int_def sint_uint signed_take_bit_int_eq_self)
qed

lemma sint_8_high:
  fixes w :: "8 word"
  assumes "128 \<le> uint w"
  shows "sint w = uint w - 256"
proof -
  have lt: "uint w < 256"
    using uint_bounded [of w] by simp
  have "uint w div 128 = 1"
    using assms lt by simp
  then have "bit (uint w) 7"
    by (simp add: bit_iff_odd)
  then show ?thesis
    using lt assms
    by (simp add: sint_uint signed_take_bit_eq_take_bit_minus take_bit_eq_mod)
qed

lemma char_to_int_high:
  assumes "128 \<le> (of_char ch :: nat)"
  shows "char_to_int ch = int (of_char ch) - 256"
proof -
  define k where "k = (of_char ch :: nat)"
  have k: "128 \<le> k" "k < 256"
    using assms nat_of_char_less_256 [of ch] by (simp_all add: k_def)
  have "unat (of_nat k :: 8 word) = k mod 2 ^ 8"
    by (simp only: unat_of_nat) simp
  with k have "unat (of_nat k :: 8 word) = k"
    by simp
  then have "uint (of_nat k :: 8 word) = int k"
    by (simp add: uint_nat)
  moreover have "(of_nat k :: 8 word) = of_char ch"
    by (simp add: k_def of_nat_of_char)
  ultimately have u: "uint (of_char ch :: 8 word) = int k"
    by simp
  with k have "128 \<le> uint (of_char ch :: 8 word)"
    by simp
  then have "sint (of_char ch :: 8 word) = uint (of_char ch :: 8 word) - 256"
    by (rule sint_8_high)
  with u show ?thesis
    by (simp add: char_to_int_def k_def)
qed

text \<open>On names of 7-bit characters the program computes the djb2 value.\<close>

lemma hash_loop_djb2_ascii:
  assumes "\<forall>ch\<in>set str. (of_char ch :: nat) < 128"
  shows "hash_loop h str = foldl djb2_step h str"
  using assms
  by (induction str arbitrary: h)
    (simp_all add: djb2_step_def push_bit_5_plus Let_def char_to_int_ascii)

lemma hash_function_djb2_ascii:
  assumes "\<forall>ch\<in>set str. (of_char ch :: nat) < 128" and "0 < cap" and "cap < 2 ^ 31"
  shows "unat (hash_function str cap) = unat (djb2 str) mod nat cap"
  using hash_function_exact [OF assms(2,3)] hash_loop_djb2_ascii [OF assms(1)]
  by (simp add: djb2_def)

subsection \<open>Insertion and search in the tree\<close>

lemma st_search_bst_alt: "st_search_bst st n = node_position (search_node (root st) n)"
  by (simp add: st_search_bst_def split: BSTNode.split)

lemma names_of_inorder: "names_of t = set (map fst (inorder_traversal t))"
  by (induction t) auto

lemma search_node_name:
  "search_node t n = BSTNode rname rposition l r \<Longrightarrow> rname = n \<and> n \<in> names_of t"
  by (induction t) (auto simp: Let_def strcmp_eq_0 split: if_splits dest: antisym_conv3)

lemma search_node_absent: "n \<notin> names_of t \<Longrightarrow> search_node t n = NULL"
  by (cases "search_node t n") (auto dest: search_node_name)

lemma search_node_present:
  "bst_ordered t \<Longrightarrow> n \<in> names_of t \<Longrightarrow> search_node t n \<noteq> NULL"
proof (induction t)
  case NULL
  then show ?case by simp
next
  case (BSTNode rname rposition l r)
  then show ?case
    using strcmp_swap [of n rname] strcmp_swap [of rname n]
    by (auto simp: Let_def strcmp_refl)
qed

lemma insert_node_found:
  "search_node t n \<noteq> NULL \<Longrightarrow>
   insert_node t n p f = (t, node_position (search_node t n), True)"
  by (induction t) (auto simp: Let_def)

lemma insert_node_new_flag:
  "search_node t n = NULL \<Longrightarrow> snd (insert_node t n p f) = (p, False)"
  by (induction t) (auto simp: Let_def create_node_def split: prod.splits)

lemma search_insert_same:
  "search_node t n = NULL \<Longrightarrow>
   node_position (search_node (fst (insert_node t n p f)) n) = p"
  by (induction t) (auto simp: Let_def create_node_def strcmp_refl split: prod.splits)

lemma search_insert_other:
  "m \<noteq> n \<Longrightarrow>
   node_position (search_node (fst (insert_node t n p f)) m) = node_position (search_node t m)"
proof (induction t)
  case NULL
  then show ?case by (simp add: create_node_def Let_def strcmp_eq_0)
next
  case (BSTNode rname rposition l r)
  then show ?case
    by (cases "insert_node l n p f"; cases "insert_node r n p f") (simp add: Let_def)
qed

lemma names_of_insert: "names_of (fst (insert_node t n p f)) = insert n (names_of t)"
proof (induction t)
  case NULL
  show ?case by (simp add: create_node_def)
next
  case (BSTNode rname rposition l r)
  show ?case
  proof (cases n rname rule: strcmp_cases)
    case lt
    with BSTNode.IH(1) show ?thesis
      by (cases "insert_node l n p f") (auto simp: Let_def)
  next
    case gt
    with BSTNode.IH(2) show ?thesis
      by (cases "insert_node r n p f") (auto simp: Let_def)
  next
    case eq
    then show ?thesis by (simp add: Let_def strcmp_refl)
  qed
qed

lemma bst_ordered_insert:
  "bst_ordered t \<Longrightarrow> bst_ordered (fst (insert_node t n p f))"
proof (induction t)
  case NULL
  then show ?case by (simp add: create_node_def)
next
  case (BSTNode rname rposition l r)
  show ?case
  proof (cases "strcmp n rname < 0")
    case True
    obtain l' p' f' where ins: "insert_node l n p f = (l', p', f')"
      by (cases "insert_node l n p f")
    have "names_of l' = insert n (names_of l)"
      using names_of_insert [of l n p f] ins by simp
    moreover have "bst_ordered l'"
      using BSTNode.IH(1) BSTNode.prems ins by simp
    ultimately show ?thesis
      using True BSTNode.prems ins by (simp add: Let_def)
  next
    case False
    show ?thesis
    proof (cases "0 < strcmp n rname")
      case gt: True
      obtain r' p' f' where ins: "insert_node r n p f = (r', p', f')"
        by (cases "insert_node r n p f")
      have "names_of r' = insert n (names_of r)"
        using names_of_insert [of r n p f] ins by simp
      moreover have "bst_ordered r'"
        using BSTNode.IH(2) BSTNode.prems ins by simp
      ultimately show ?thesis
        using False gt BSTNode.prems ins by (simp add: Let_def)
    next
      case eq: False
      with False BSTNode.prems show ?thesis by (simp add: Let_def)
    qed
  qed
qed

subsection \<open>The BST table\<close>

lemma finite_names_of: "finite (names_of t)"
  by (induction t) simp_all

lemma bst_inv_create: "bst_inv st_create_bst"
  by (simp add: bst_inv_def st_create_bst_def)

lemma st_add_bst_found:
  assumes "search_node (root st) n \<noteq> NULL"
  shows "st_add_bst st n = (node_position (search_node (root st) n), st)"
  using insert_node_found [OF assms, of "size_bst st" False]
  by (simp add: st_add_bst_def)

lemma st_add_bst_new:
  assumes "search_node (root st) n = NULL"
  shows "st_add_bst st n =
    (size_bst st, \<lparr>root = fst (insert_node (root st) n (size_bst st) False),
                    size_bst = size_bst st + 1\<rparr>)"
  using insert_node_new_flag [OF assms, of "size_bst st" False]
  by (simp add: st_add_bst_def case_prod_beta)

lemma names_of_st_add_bst:
  "names_of (root (snd (st_add_bst st n))) = insert n (names_of (root st))"
  using names_of_insert [of "root st" n "size_bst st" False]
  by (simp add: st_add_bst_def case_prod_beta)

lemma bst_ordered_st_add:
  "bst_ordered (root st) \<Longrightarrow> bst_ordered (root (snd (st_add_bst st n)))"
  using bst_ordered_insert [of "root st" n "size_bst st" False]
  by (simp add: st_add_bst_def case_prod_beta)

lemma bst_inv_st_add:
  assumes "bst_inv st"
  shows "bst_inv (snd (st_add_bst st n))"
proof (cases "n \<in> names_of (root st)")
  case True
  with assms have "search_node (root st) n \<noteq> NULL"
    by (simp add: bst_inv_def search_node_present)
  with assms show ?thesis
    by (simp add: st_add_bst_found)
next
  case False
  then have new: "search_node (root st) n = NULL"
    by (rule search_node_absent)
  have "size_bst (snd (st_add_bst st n)) = size_bst st + 1"
    by (simp add: st_add_bst_new [OF new])
  moreover have "card (names_of (root (snd (st_add_bst st n)))) = Suc (card (names_of (root st)))"
    using False by (simp add: names_of_st_add_bst finite_names_of)
  ultimately show ?thesis
    using assms bst_ordered_st_add [of st n] by (simp add: bst_inv_def)
qed

lemma st_add_bst_fst:
  assumes "bst_inv st"
  shows "fst (st_add_bst st n) =
    (if n \<in> names_of (root st) then st_search_bst st n else size_bst st)"
proof (cases "n \<in> names_of (root st)")
  case True
  with assms have "search_node (root st) n \<noteq> NULL"
    by (simp add: bst_inv_def search_node_present)
  with True show ?thesis
    by (simp add: st_add_bst_found st_search_bst_alt)
next
  case False
  then have "search_node (root st) n = NULL"
    by (rule search_node_absent)
  with False show ?thesis
    by (simp add: st_add_bst_new)
qed

lemma add_all_bst_Cons:
  "add_all_bst st (n # ns) =
     (fst (st_add_bst st n) # fst (add_all_bst (snd (st_add_bst st n)) ns),
      snd (add_all_bst (snd (st_add_bst st n)) ns))"
  by (simp add: case_prod_beta)

lemma add_all_bst_inv:
  "bst_inv st \<Longrightarrow> bst_inv (snd (add_all_bst st ns))"
proof (induction ns arbitrary: st)
  case Nil
  then show ?case by simp
next
  case (Cons n ns)
  from Cons.IH [OF bst_inv_st_add [OF Cons.prems, of n]] show ?case
    by (simp add: add_all_bst_Cons del: add_all_bst.simps)
qed

lemma add_all_bst_names:
  "names_of (root (snd (add_all_bst st ns))) = names_of (root st) \<union> set ns"
proof (induction ns arbitrary: st)
  case Nil
  then show ?case by simp
next
  case (Cons n ns)
  from Cons.IH [of "snd (st_add_bst st n)"] names_of_st_add_bst [of st n] show ?case
    by (simp add: add_all_bst_Cons del: add_all_bst.simps)
qed

lemma add_all_bst_distinct:
  assumes "bst_inv st" "distinct ns" "set ns \<inter> names_of (root st) = {}"
  shows "fst (add_all_bst st ns) = map (\<lambda>i. size_bst st + int i) [0..<length ns]"
  using assms
proof (induction ns arbitrary: st)
  case Nil
  then show ?case by simp
next
  case (Cons n ns)
  let ?st1 = "snd (st_add_bst st n)"
  from Cons.prems have new: "search_node (root st) n = NULL"
    by (simp add: search_node_absent)
  have inv1: "bst_inv ?st1"
    using Cons.prems(1) by (rule bst_inv_st_add)
  have disj: "set ns \<inter> names_of (root ?st1) = {}"
    using Cons.prems by (auto simp: names_of_st_add_bst)
  have sz: "size_bst ?st1 = size_bst st + 1"
    by (simp add: st_add_bst_new [OF new])
  have "fst (add_all_bst ?st1 ns) = map (\<lambda>i. size_bst ?st1 + int i) [0..<length ns]"
    using Cons.IH [OF inv1 _ disj] Cons.prems(2) by simp
  then have "fst (add_all_bst ?st1 ns) = map (\<lambda>i. size_bst st + int (Suc i)) [0..<length ns]"
    by (simp add: sz add.assoc)
  moreover have "fst (st_add_bst st n) = size_bst st"
    by (simp add: st_add_bst_new [OF new])
  ultimately show ?case
    by (simp add: add_all_bst_Cons map_upt_Suc del: add_all_bst.simps upt_Suc)
qed

lemma st_search_after_add_bst:
  "st_search_bst (snd (st_add_bst st n)) n = fst (st_add_bst st n)"
proof (cases "search_node (root st) n = NULL")
  case True
  then show ?thesis
    using search_insert_same [OF True, of "size_bst st" False]
    by (simp add: st_add_bst_new st_search_bst_alt)
next
  case False
  then show ?thesis
    by (simp add: st_add_bst_found st_search_bst_alt)
qed

lemma search_insert_not_null: "search_node (fst (insert_node t n p f)) n \<noteq> NULL"
proof (induction t)
  case NULL
  show ?case by (simp add: create_node_def strcmp_refl)
next
  case (BSTNode rname rposition l r)
  then show ?case
    by (cases "insert_node l n p f"; cases "insert_node r n p f") (simp add: Let_def)
qed

lemma st_add_bst_twice:
  "st_add_bst (snd (st_add_bst st n)) n = (fst (st_add_bst st n), snd (st_add_bst st n))"
proof -
  let ?st1 = "snd (st_add_bst st n)"
  have "search_node (root ?st1) n \<noteq> NULL"
    using search_insert_not_null [of "root st" n "size_bst st" False]
    by (simp add: st_add_bst_def case_prod_beta)
  then show ?thesis
    using st_search_after_add_bst [of st n]
    by (simp add: st_add_bst_found st_search_bst_alt)
qed

lemma sorted_inorder:
  "bst_ordered t \<Longrightarrow> sorted_wrt (\<lambda>a b. strcmp a b < 0) (map fst (inorder_traversal t))"
proof (induction t)
  case NULL
  then show ?case by simp
next
  case (BSTNode rname rposition l r)
  have "\<forall>a\<in>names_of l. \<forall>b\<in>names_of r. strcmp a b < 0"
    using BSTNode.prems strcmp_trans strcmp_swap by (metis bst_ordered.simps(2))
  with BSTNode show ?case
    by (auto simp: sorted_wrt_append names_of_inorder strcmp_swap)
qed

lemma search_insert_other_null:
  "n \<noteq> m \<Longrightarrow>
   (search_node (fst (insert_node t m p f)) n = NULL) = (search_node t n = NULL)"
proof (induction t)
  case NULL
  then show ?case by (simp add: create_node_def Let_def strcmp_eq_0)
next
  case (BSTNode rname rposition l r)
  then show ?case
    by (cases "insert_node l m p f"; cases "insert_node r m p f") (simp add: Let_def)
qed

lemma st_search_bst_add_other:
  assumes "search_node (root st) n \<noteq> NULL"
  shows "st_search_bst (snd (st_add_bst st m)) n = st_search_bst st n
      \<and> search_node (root (snd (st_add_bst st m))) n \<noteq> NULL"
proof (cases "m = n")
  case True
  with assms show ?thesis by (simp add: st_add_bst_found)
next
  case False
  then have ne: "n \<noteq> m" by simp
  have r: "root (snd (st_add_bst st m)) = fst (insert_node (root st) m (size_bst st) False)"
    by (simp add: st_add_bst_def case_prod_beta)
  have "node_position (search_node (root (snd (st_add_bst st m))) n)
      = node_position (search_node (root st) n)"
    unfolding r using ne by (rule search_insert_other)
  moreover have "search_node (root (snd (st_add_bst st m))) n \<noteq> NULL"
    unfolding r using assms by (simp add: search_insert_other_null [OF ne])
  ultimately show ?thesis by (simp add: st_search_bst_alt)
qed

lemma st_search_bst_add_all_other:
  "search_node (root st) n \<noteq> NULL \<Longrightarrow>
   st_search_bst (snd (add_all_bst st ms)) n = st_search_bst st n"
proof (induction ms arbitrary: st)
  case Nil
  then show ?case by simp
next
  case (Cons m ms)
  from st_search_bst_add_other [OF Cons.prems, of m]
  have s: "st_search_bst (snd (st_add_bst st m)) n = st_search_bst st n"
    and nn: "search_node (root (snd (st_add_bst st m))) n \<noteq> NULL"
    by simp_all
  from Cons.IH [OF nn] s show ?case
    by (simp add: add_all_bst_Cons del: add_all_bst.simps)
qed

lemma st_search_bst_after_add_all:
  "st_search_bst (snd (add_all_bst (snd (st_add_bst st n)) ms)) n = fst (st_add_bst st n)"
proof -
  have "search_node (root (snd (st_add_bst st n))) n \<noteq> NULL"
    using search_insert_not_null [of "root st" n "size_bst st" False]
    by (simp add: st_add_bst_def case_prod_beta)
  then have "st_search_bst (snd (add_all_bst (snd (st_add_bst st n)) ms)) n
      = st_search_bst (snd (st_add_bst st n)) n"
    by (rule st_search_bst_add_all_other)
  then show ?thesis by (simp add: st_search_after_add_bst)
qed

subsection \<open>Search in the hash table\<close>

lemma search_chain_absent: "nm \<notin> name ` set c \<Longrightarrow> search_chain c nm = -1"
  by (induction c) (auto simp: strcmp_eq_0)

lemma search_chain_present:
  "e \<in> set c \<Longrightarrow> distinct (map name c) \<Longrightarrow> search_chain c (name e) = position e"
  by (induction c) (auto simp: strcmp_eq_0)

lemma set_ht_entries:
  "set (ht_entries st) = (\<Union>i < length (buckets st). set (buckets st ! i))"
proof -
  have "set (buckets st) = (\<lambda>i. buckets st ! i) ` {..<length (buckets st)}"
    by (auto simp: set_conv_nth)
  then show ?thesis
    by (simp add: ht_entries_def)
qed

lemma distinct_names_bucket:
  assumes "distinct (map name (concat bs))" "i < length bs"
  shows "distinct (map name (bs ! i))"
proof -
  have "distinct (concat (map (map name) bs))"
    using assms(1) by (simp add: map_concat)
  then have "\<forall>ys \<in> set (map (map name) bs). distinct ys"
    by (simp add: distinct_concat_iff)
  with assms(2) show ?thesis by simp
qed

lemma index_in_range: "ht_placed st \<Longrightarrow> unat (hash_function nm (capacity st)) < length (buckets st)"
  by (simp add: ht_placed_def hash_function_less)

lemma st_search_ht_present:
  assumes "ht_inv st" "e \<in> set (ht_entries st)"
  shows "st_search_ht st (name e) = position e"
proof -
  from assms(2) obtain i where i: "i < length (buckets st)" "e \<in> set (buckets st ! i)"
    by (auto simp: set_ht_entries)
  with assms(1) have "unat (hash_function (name e) (capacity st)) = i"
    by (simp add: ht_inv_def ht_placed_def)
  moreover have "distinct (map name (buckets st ! i))"
    using assms(1) i(1) by (simp add: ht_inv_def ht_entries_def distinct_names_bucket)
  ultimately show ?thesis
    using i(2) by (simp add: st_search_ht_def search_chain_present)
qed

lemma st_search_ht_absent:
  assumes "ht_placed st" "nm \<notin> name ` set (ht_entries st)"
  shows "st_search_ht st nm = -1"
proof -
  let ?i = "unat (hash_function nm (capacity st))"
  have "?i < length (buckets st)"
    using assms(1) by (rule index_in_range)
  then have "set (buckets st ! ?i) \<subseteq> set (ht_entries st)"
    by (auto simp: set_ht_entries)
  with assms(2) have "nm \<notin> name ` set (buckets st ! ?i)"
    by auto
  then show ?thesis
    by (simp add: st_search_ht_def search_chain_absent)
qed

lemma st_search_ht_eq_minus1:
  assumes "ht_inv st"
  shows "st_search_ht st nm = -1 \<longleftrightarrow> nm \<notin> name ` set (ht_entries st)"
proof
  assume "st_search_ht st nm = -1"
  show "nm \<notin> name ` set (ht_entries st)"
  proof
    assume "nm \<in> name ` set (ht_entries st)"
    then obtain e where e: "e \<in> set (ht_entries st)" "name e = nm" by auto
    with assms have "st_search_ht st nm = position e" "0 \<le> position e"
      using st_search_ht_present [OF assms e(1)] by (auto simp: ht_inv_def)
    with \<open>st_search_ht st nm = -1\<close> show False by simp
  qed
next
  assume "nm \<notin> name ` set (ht_entries st)"
  with assms show "st_search_ht st nm = -1"
    by (simp add: ht_inv_def st_search_ht_absent)
qed

subsection \<open>Rehashing\<close>

lemma mset_concat_push:
  "i < length bs \<Longrightarrow> mset (concat (bs[i := e # bs ! i])) = add_mset e (mset (concat bs))"
proof (induction bs arbitrary: i)
  case Nil
  then show ?case by simp
next
  case (Cons b bs)
  then show ?case by (cases i) simp_all
qed

lemma push_placed:
  assumes "ht_placed st"
  shows "ht_placed (st\<lparr>buckets := (buckets st)[unat (hash_function (name e) (capacity st)) :=
           e # (buckets st ! unat (hash_function (name e) (capacity st)))]\<rparr>)"
proof -
  have "unat (hash_function (name e) (capacity st)) < length (buckets st)"
    using assms by (simp add: index_in_range)
  with assms show ?thesis
    by (auto simp: ht_placed_def nth_list_update)
qed

lemma rehash_chain_fields:
  "capacity (rehash_chain c st) = capacity st \<and>
   next_position (rehash_chain c st) = next_position st \<and>
   length (buckets (rehash_chain c st)) = length (buckets st) \<and>
   size_ht (rehash_chain c st) = size_ht st + int (length c)"
  by (induction c arbitrary: st) (simp_all add: Let_def)

lemma placed_size_update: "ht_placed st \<Longrightarrow> ht_placed (st\<lparr>size_ht := k\<rparr>)"
  by (simp add: ht_placed_def)

lemma entries_size_update: "ht_entries (st\<lparr>size_ht := k\<rparr>) = ht_entries st"
  by (simp add: ht_entries_def)

lemma rehash_chain_Cons:
  "rehash_chain (e # c) st =
   rehash_chain c
     (st\<lparr>buckets := (buckets st)[unat (hash_function (name e) (capacity st)) :=
           e # (buckets st ! unat (hash_function (name e) (capacity st)))]\<rparr>
        \<lparr>size_ht := size_ht st + 1\<rparr>)"
  by (simp add: Let_def)

lemma rehash_chain_placed: "ht_placed st \<Longrightarrow> ht_placed (rehash_chain c st)"
proof (induction c arbitrary: st)
  case Nil
  then show ?case by simp
next
  case (Cons e c)
  from Cons.prems show ?case
    unfolding rehash_chain_Cons
    by (intro Cons.IH placed_size_update push_placed)
qed

lemma entries_push:
  assumes "ht_placed st"
  shows "mset (ht_entries (st\<lparr>buckets := (buckets st)[unat (hash_function (name e) (capacity st)) :=
           e # (buckets st ! unat (hash_function (name e) (capacity st)))]\<rparr>))
         = add_mset e (mset (ht_entries st))"
  using index_in_range [OF assms, of "name e"]
  by (simp add: ht_entries_def mset_concat_push)

lemma rehash_chain_entries:
  "ht_placed st \<Longrightarrow> mset (ht_entries (rehash_chain c st)) = mset c + mset (ht_entries st)"
proof (induction c arbitrary: st)
  case Nil
  then show ?case by simp
next
  case (Cons e c)
  have "mset (ht_entries (rehash_chain (e # c) st)) = mset c + add_mset e (mset (ht_entries st))"
    unfolding rehash_chain_Cons
    by (subst Cons.IH)
      (simp_all only: placed_size_update push_placed Cons.prems entries_size_update entries_push)
  then show ?case by simp
qed

lemma rehash_from_stop: "\<not> i < oc \<Longrightarrow> rehash_from i oc ob st = st"
  by (simp add: rehash_from.simps [of i oc ob st])

lemma rehash_from_step:
  "i < oc \<Longrightarrow> rehash_from i oc ob st = rehash_from (i + 1) oc ob (rehash_chain (ob ! i) st)"
  by (simp add: rehash_from.simps [of i oc ob st])

lemma rehash_from_fields:
  "capacity (rehash_from i oc ob st) = capacity st \<and>
   next_position (rehash_from i oc ob st) = next_position st \<and>
   length (buckets (rehash_from i oc ob st)) = length (buckets st)"
proof (induction i oc ob st rule: rehash_from.induct)
  case (1 i oc ob st)
  show ?case
  proof (cases "i < oc")
    case True
    with 1 show ?thesis
      by (simp add: rehash_from_step rehash_chain_fields)
  next
    case False
    then show ?thesis by (simp add: rehash_from_stop)
  qed
qed

lemma rehash_from_placed:
  "ht_placed st \<Longrightarrow> ht_placed (rehash_from i oc ob st)"
proof (induction i oc ob st rule: rehash_from.induct)
  case (1 i oc ob st)
  show ?case
  proof (cases "i < oc")
    case True
    with 1 show ?thesis
      by (simp add: rehash_from_step rehash_chain_placed)
  next
    case False
    with 1 show ?thesis by (simp add: rehash_from_stop)
  qed
qed

lemma rehash_from_entries:
  "ht_placed st \<Longrightarrow> oc = length ob \<Longrightarrow>
   mset (ht_entries (rehash_from i oc ob st)) = mset (concat (drop i ob)) + mset (ht_entries st)
   \<and> size_ht (rehash_from i oc ob st) = size_ht st + int (length (concat (drop i ob)))"
proof (induction i oc ob st rule: rehash_from.induct)
  case (1 i oc ob st)
  show ?case
  proof (cases "i < oc")
    case True
    then have d: "drop i ob = ob ! i # drop (Suc i) ob"
      using "1.prems"(2) by (simp add: Cons_nth_drop_Suc)
    have "ht_placed (rehash_chain (ob ! i) st)"
      using "1.prems"(1) by (rule rehash_chain_placed)
    from "1.IH" [OF True this "1.prems"(2)] True show ?thesis
      by (simp add: rehash_from_step d
          rehash_chain_entries [OF "1.prems"(1)] rehash_chain_fields)
  next
    case False
    with "1.prems" show ?thesis by (simp add: rehash_from_stop)
  qed
qed

lemma ht_inv_create: "ht_inv st_create_ht"
  by (simp add: ht_inv_def ht_placed_def ht_entries_def st_create_ht_def INITIAL_TABLE_SIZE_def)

lemma ht_inv_mset_transfer:
  assumes "ht_inv st" "ht_placed st'" "mset (ht_entries st') = mset (ht_entries st)"
    "size_ht st' = size_ht st" "next_position st' = next_position st"
  shows "ht_inv st'"
proof -
  have "mset (map name (ht_entries st')) = mset (map name (ht_entries st))"
    using assms(3) by (metis mset_map)
  then have "distinct (map name (ht_entries st')) \<longleftrightarrow> distinct (map name (ht_entries st))"
    by (rule mset_eq_imp_distinct_iff)
  moreover have "set (ht_entries st') = set (ht_entries st)"
    using assms(3) by (rule mset_eq_setD)
  moreover have "length (ht_entries st') = length (ht_entries st)"
    using assms(3) by (rule mset_eq_length)
  ultimately show ?thesis
    using assms(1,2,4,5) by (auto simp: ht_inv_def)
qed

lemma st_resize_unfold:
  "st_resize st =
     rehash_from 0 (nat (capacity st)) (buckets st)
       (st\<lparr>capacity := capacity st * 2, buckets := replicate (nat (capacity st * 2)) [],
           size_ht := 0\<rparr>)"
  by (simp add: st_resize_def Let_def)

lemma st_resize_facts:
  assumes "ht_placed st"
  shows "capacity (st_resize st) = capacity st * 2"
    and "next_position (st_resize st) = next_position st"
    and "ht_placed (st_resize st)"
    and "mset (ht_entries (st_resize st)) = mset (ht_entries st)"
    and "size_ht (st_resize st) = int (length (ht_entries st))"
proof -
  let ?st3 = "st\<lparr>capacity := capacity st * 2, buckets := replicate (nat (capacity st * 2)) [],
           size_ht := 0\<rparr>"
  have p3: "ht_placed ?st3"
    using assms by (simp add: ht_placed_def)
  have e3: "ht_entries ?st3 = []"
    by (simp add: ht_entries_def)
  have len: "nat (capacity st) = length (buckets st)"
    using assms by (simp add: ht_placed_def)
  show "capacity (st_resize st) = capacity st * 2"
    and "next_position (st_resize st) = next_position st"
    by (simp_all add: st_resize_unfold rehash_from_fields)
  show "ht_placed (st_resize st)"
    unfolding st_resize_unfold using p3 by (rule rehash_from_placed)
  from rehash_from_entries [OF p3 len, of 0]
  show "mset (ht_entries (st_resize st)) = mset (ht_entries st)"
    and "size_ht (st_resize st) = int (length (ht_entries st))"
    by (simp_all add: st_resize_unfold e3 ht_entries_def)
qed

lemma st_resize_inv:
  assumes "ht_inv st"
  shows "ht_inv (st_resize st)"
proof -
  from assms have p: "ht_placed st" by (simp add: ht_inv_def)
  from assms have "size_ht (st_resize st) = size_ht st"
    by (simp add: st_resize_facts(5) [OF p] ht_inv_def)
  from assms st_resize_facts(3) [OF p] st_resize_facts(4) [OF p] this st_resize_facts(2) [OF p]
  show ?thesis
    by (rule ht_inv_mset_transfer)
qed

lemma st_search_ht_mset:
  assumes "ht_inv st" "ht_inv st'" "set (ht_entries st') = set (ht_entries st)"
  shows "st_search_ht st' nm = st_search_ht st nm"
proof (cases "nm \<in> name ` set (ht_entries st)")
  case True
  then obtain e where e: "e \<in> set (ht_entries st)" "name e = nm" by auto
  from e(1) assms(3) have e': "e \<in> set (ht_entries st')" by simp
  show ?thesis
    using st_search_ht_present [OF assms(1) e(1)] st_search_ht_present [OF assms(2) e'] e(2)
    by simp
next
  case False
  then have "st_search_ht st nm = -1"
    using st_search_ht_eq_minus1 [OF assms(1), of nm] by simp
  moreover have "st_search_ht st' nm = -1"
    using st_search_ht_eq_minus1 [OF assms(2), of nm] False assms(3) by simp
  ultimately show ?thesis by simp
qed

lemma st_search_ht_resize:
  assumes "ht_inv st"
  shows "st_search_ht (st_resize st) nm = st_search_ht st nm"
proof -
  from assms have p: "ht_placed st" by (simp add: ht_inv_def)
  have "set (ht_entries (st_resize st)) = set (ht_entries st)"
    using st_resize_facts(4) [OF p] by (rule mset_eq_setD)
  with assms st_resize_inv [OF assms] show ?thesis
    by (rule st_search_ht_mset)
qed

subsection \<open>Adding to the hash table\<close>

lemma ht_insert_fields:
  "capacity (ht_insert st nm) = capacity st"
  "next_position (ht_insert st nm) = next_position st + 1"
  "size_ht (ht_insert st nm) = size_ht st + 1"
  by (simp_all add: ht_insert_def Let_def)

lemma ht_insert_entries:
  assumes "ht_placed st"
  shows "mset (ht_entries (ht_insert st nm)) =
    add_mset (create_entry nm (next_position st)) (mset (ht_entries st))"
  using index_in_range [OF assms, of nm]
  by (simp add: ht_insert_def Let_def ht_entries_def mset_concat_push)

lemma ht_insert_placed:
  assumes "ht_placed st"
  shows "ht_placed (ht_insert st nm)"
proof -
  have "unat (hash_function nm (capacity st)) < length (buckets st)"
    using assms by (rule index_in_range)
  with assms show ?thesis
    by (auto simp: ht_placed_def ht_insert_def Let_def nth_list_update create_entry_def)
qed

lemma ht_insert_inv:
  assumes "ht_inv st" "nm \<notin> name ` set (ht_entries st)"
  shows "ht_inv (ht_insert st nm)"
proof -
  from assms have p: "ht_placed st" by (simp add: ht_inv_def)
  let ?e = "create_entry nm (next_position st)"
  have m: "mset (ht_entries (ht_insert st nm)) = mset (?e # ht_entries st)"
    using ht_insert_entries [OF p, of nm] by simp
  then have "mset (map name (ht_entries (ht_insert st nm))) = mset (map name (?e # ht_entries st))"
    by (metis mset_map)
  then have "distinct (map name (ht_entries (ht_insert st nm))) \<longleftrightarrow>
      distinct (map name (?e # ht_entries st))"
    by (rule mset_eq_imp_distinct_iff)
  moreover have s: "set (ht_entries (ht_insert st nm)) = set (?e # ht_entries st)"
    using m by (rule mset_eq_setD)
  moreover have "length (ht_entries (ht_insert st nm)) = length (?e # ht_entries st)"
    using m by (rule mset_eq_length)
  ultimately show ?thesis
    using assms ht_insert_placed [OF p, of nm]
    by (auto simp: ht_inv_def ht_insert_fields create_entry_def)
qed

lemma st_add_ht_unfold:
  "st_add_ht st nm =
     (if st_search_ht st nm \<noteq> -1 then (st_search_ht st nm, st)
      else (next_position (maybe_resize st), ht_insert (maybe_resize st) nm))"
  by (simp add: st_add_ht_def maybe_resize_def ht_insert_def Let_def)

lemma maybe_resize_facts:
  assumes "ht_inv st"
  shows "ht_inv (maybe_resize st)"
    and "next_position (maybe_resize st) = next_position st"
    and "set (ht_entries (maybe_resize st)) = set (ht_entries st)"
    and "size_ht (maybe_resize st) = size_ht st"
proof -
  from assms have p: "ht_placed st" by (simp add: ht_inv_def)
  show "ht_inv (maybe_resize st)"
    using assms by (simp add: maybe_resize_def st_resize_inv)
  show "next_position (maybe_resize st) = next_position st"
    by (simp add: maybe_resize_def st_resize_facts(2) [OF p])
  show "set (ht_entries (maybe_resize st)) = set (ht_entries st)"
    using mset_eq_setD [OF st_resize_facts(4) [OF p]] by (simp add: maybe_resize_def)
  show "size_ht (maybe_resize st) = size_ht st"
    using assms by (simp add: maybe_resize_def st_resize_facts(5) [OF p] ht_inv_def)
qed

lemma ht_names_insert:
  assumes "ht_placed st"
  shows "ht_names (ht_insert st nm) = insert nm (ht_names st)"
proof -
  have "set (ht_entries (ht_insert st nm)) =
      set (create_entry nm (next_position st) # ht_entries st)"
    using ht_insert_entries [OF assms, of nm] by (intro mset_eq_setD) simp
  then show ?thesis
    by (simp add: ht_names_def create_entry_def)
qed

lemma st_add_ht_present:
  assumes "ht_inv st" "nm \<in> ht_names st"
  shows "st_add_ht st nm = (st_search_ht st nm, st)"
  using st_search_ht_eq_minus1 [OF assms(1), of nm] assms(2)
  by (simp add: st_add_ht_unfold ht_names_def)

lemma st_add_ht_absent:
  assumes "ht_inv st" "nm \<notin> ht_names st"
  shows "st_add_ht st nm = (next_position st, ht_insert (maybe_resize st) nm)"
  using st_search_ht_eq_minus1 [OF assms(1), of nm] assms(2)
  by (simp add: st_add_ht_unfold ht_names_def maybe_resize_facts(2) [OF assms(1)])

lemma st_add_ht_inv:
  assumes "ht_inv st"
  shows "ht_inv (snd (st_add_ht st nm))"
proof (cases "nm \<in> ht_names st")
  case True
  with assms show ?thesis by (simp add: st_add_ht_present)
next
  case False
  then have "nm \<notin> name ` set (ht_entries (maybe_resize st))"
    by (simp add: ht_names_def maybe_resize_facts(3) [OF assms])
  with maybe_resize_facts(1) [OF assms] have "ht_inv (ht_insert (maybe_resize st) nm)"
    by (rule ht_insert_inv)
  with assms False show ?thesis by (simp add: st_add_ht_absent)
qed

lemma st_add_ht_names:
  assumes "ht_inv st"
  shows "ht_names (snd (st_add_ht st nm)) = insert nm (ht_names st)"
proof (cases "nm \<in> ht_names st")
  case True
  with assms show ?thesis by (auto simp: st_add_ht_present)
next
  case False
  have "ht_placed (maybe_resize st)"
    using maybe_resize_facts(1) [OF assms] by (simp add: ht_inv_def)
  then have "ht_names (ht_insert (maybe_resize st) nm) = insert nm (ht_names (maybe_resize st))"
    by (rule ht_names_insert)
  with assms False show ?thesis
    by (simp add: st_add_ht_absent ht_names_def maybe_resize_facts(3) [OF assms])
qed

lemma st_add_ht_next_position:
  assumes "ht_inv st" "nm \<notin> ht_names st"
  shows "next_position (snd (st_add_ht st nm)) = next_position st + 1"
  using assms by (simp add: st_add_ht_absent ht_insert_fields maybe_resize_facts(2))

lemma st_search_after_add_ht:
  assumes "ht_inv st"
  shows "st_search_ht (snd (st_add_ht st nm)) nm = fst (st_add_ht st nm)"
proof (cases "nm \<in> ht_names st")
  case True
  with assms show ?thesis by (simp add: st_add_ht_present)
next
  case False
  let ?st1 = "maybe_resize st"
  let ?e = "create_entry nm (next_position ?st1)"
  have inv': "ht_inv (ht_insert ?st1 nm)"
    using st_add_ht_inv [OF assms, of nm] assms False by (simp add: st_add_ht_absent)
  have "ht_placed ?st1"
    using maybe_resize_facts(1) [OF assms] by (simp add: ht_inv_def)
  then have "set (ht_entries (ht_insert ?st1 nm)) = set (?e # ht_entries ?st1)"
    using ht_insert_entries [of ?st1 nm] by (intro mset_eq_setD) simp
  then have "?e \<in> set (ht_entries (ht_insert ?st1 nm))"
    by simp
  from st_search_ht_present [OF inv' this] assms False show ?thesis
    by (simp add: st_add_ht_absent create_entry_def maybe_resize_facts(2))
qed

lemma st_add_ht_fst_nonneg:
  assumes "ht_inv st"
  shows "0 \<le> fst (st_add_ht st nm)"
proof (cases "nm \<in> ht_names st")
  case True
  then obtain e where e: "e \<in> set (ht_entries st)" "name e = nm"
    by (auto simp: ht_names_def)
  with assms have "0 \<le> position e" by (simp add: ht_inv_def)
  with st_search_ht_present [OF assms e(1)] e(2) assms True show ?thesis
    by (simp add: st_add_ht_present)
next
  case False
  from assms have "0 \<le> next_position st" by (simp add: ht_inv_def)
  with assms False show ?thesis by (simp add: st_add_ht_absent)
qed

lemma st_add_ht_twice:
  assumes "ht_inv st"
  shows "st_add_ht (snd (st_add_ht st nm)) nm = (fst (st_add_ht st nm), snd (st_add_ht st nm))"
  using st_search_after_add_ht [OF assms, of nm] st_add_ht_fst_nonneg [OF assms, of nm]
  by (simp add: st_add_ht_unfold [of "snd (st_add_ht st nm)"])

lemma add_all_ht_Cons:
  "add_all_ht st (n # ns) =
     (fst (st_add_ht st n) # fst (add_all_ht (snd (st_add_ht st n)) ns),
      snd (add_all_ht (snd (st_add_ht st n)) ns))"
  by (simp add: case_prod_beta)

lemma add_all_ht_inv: "ht_inv st \<Longrightarrow> ht_inv (snd (add_all_ht st ns))"
proof (induction ns arbitrary: st)
  case Nil
  then show ?case by simp
next
  case (Cons n ns)
  from Cons.IH [OF st_add_ht_inv [OF Cons.prems, of n]] show ?case
    by (simp add: add_all_ht_Cons del: add_all_ht.simps)
qed

lemma add_all_ht_names:
  "ht_inv st \<Longrightarrow> ht_names (snd (add_all_ht st ns)) = ht_names st \<union> set ns"
proof (induction ns arbitrary: st)
  case Nil
  then show ?case by simp
next
  case (Cons n ns)
  from Cons.IH [OF st_add_ht_inv [OF Cons.prems, of n]] st_add_ht_names [OF Cons.prems, of n]
  show ?case
    by (simp add: add_all_ht_Cons del: add_all_ht.simps)
qed

lemma add_all_ht_distinct:
  assumes "ht_inv st" "distinct ns" "set ns \<inter> ht_names st = {}"
  shows "fst (add_all_ht st ns) = map (\<lambda>i. next_position st + int i) [0..<length ns]"
  using assms
proof (induction ns arbitrary: st)
  case Nil
  then show ?case by simp
next
  case (Cons n ns)
  let ?st1 = "snd (st_add_ht st n)"
  from Cons.prems have new: "n \<notin> ht_names st" by simp
  have inv1: "ht_inv ?st1"
    using Cons.prems(1) by (rule st_add_ht_inv)
  have disj: "set ns \<inter> ht_names ?st1 = {}"
    using Cons.prems by (auto simp: st_add_ht_names)
  have np: "next_position ?st1 = next_position st + 1"
    using Cons.prems(1) new by (rule st_add_ht_next_position)
  have "fst (add_all_ht ?st1 ns) = map (\<lambda>i. next_position ?st1 + int i) [0..<length ns]"
    using Cons.IH [OF inv1 _ disj] Cons.prems(2) by simp
  then have "fst (add_all_ht ?st1 ns) = map (\<lambda>i. next_position st + int (Suc i)) [0..<length ns]"
    by (simp add: np add.assoc)
  moreover have "fst (st_add_ht st n) = next_position st"
    using Cons.prems(1) new by (simp add: st_add_ht_absent)
  ultimately show ?case
    by (simp add: add_all_ht_Cons map_upt_Suc del: add_all_ht.simps upt_Suc)
qed

lemma ht_size_card:
  assumes "ht_inv st"
  shows "size_ht st = int (card (ht_names st))"
proof -
  have "card (ht_names st) = card (set (map name (ht_entries st)))"
    by (simp add: ht_names_def)
  also have "\<dots> = length (map name (ht_entries st))"
    using assms by (intro distinct_card) (simp add: ht_inv_def)
  finally show ?thesis
    using assms by (simp add: ht_inv_def)
qed

subsection \<open>Tables reached from a fresh table\<close>

lemma bst_after_inv: "bst_inv (bst_after ns)"
  by (simp add: bst_after_def add_all_bst_inv bst_inv_create)

lemma bst_after_names: "names_of (root (bst_after ns)) = set ns"
  by (simp add: bst_after_def add_all_bst_names st_create_bst_def)

lemma ht_after_inv: "ht_inv (ht_after ns)"
  by (simp add: ht_after_def add_all_ht_inv ht_inv_create)

lemma ht_names_create: "ht_names st_create_ht = {}"
  by (simp add: ht_names_def ht_entries_def st_create_ht_def)

lemma ht_after_names: "ht_names (ht_after ns) = set ns"
  by (simp add: ht_after_def add_all_ht_names ht_inv_create ht_names_create)

lemma maybe_resize_capacity:
  assumes "ht_placed st"
  shows "capacity (maybe_resize st) = capacity st \<or> capacity (maybe_resize st) = capacity st * 2"
  by (simp add: maybe_resize_def st_resize_facts(1) [OF assms])

lemma st_add_ht_capacity:
  assumes "ht_inv st"
  shows "\<exists>k. capacity (snd (st_add_ht st nm)) = capacity st * 2 ^ k"
proof -
  from assms have p: "ht_placed st" by (simp add: ht_inv_def)
  have "capacity (snd (st_add_ht st nm)) = capacity st
      \<or> capacity (snd (st_add_ht st nm)) = capacity st * 2"
    using maybe_resize_capacity [OF p] by (auto simp: st_add_ht_unfold ht_insert_fields)
  then show ?thesis
  proof
    assume "capacity (snd (st_add_ht st nm)) = capacity st"
    then have "capacity (snd (st_add_ht st nm)) = capacity st * 2 ^ 0" by simp
    then show ?thesis ..
  next
    assume "capacity (snd (st_add_ht st nm)) = capacity st * 2"
    then have "capacity (snd (st_add_ht st nm)) = capacity st * 2 ^ 1" by simp
    then show ?thesis ..
  qed
qed

lemma add_all_ht_capacity:
  "ht_inv st \<Longrightarrow> \<exists>k. capacity (snd (add_all_ht st ns)) = capacity st * 2 ^ k"
proof (induction ns arbitrary: st)
  case Nil
  have "capacity st = capacity st * 2 ^ 0" by simp
  then show ?case by (simp del: power_0) blast
next
  case (Cons n ns)
  let ?st1 = "snd (st_add_ht st n)"
  from st_add_ht_capacity [OF Cons.prems, of n]
  obtain j where j: "capacity ?st1 = capacity st * 2 ^ j" ..
  from Cons.IH [OF st_add_ht_inv [OF Cons.prems, of n]]
  obtain k where k: "capacity (snd (add_all_ht ?st1 ns)) = capacity ?st1 * 2 ^ k" ..
  have "capacity (snd (add_all_ht st (n # ns))) = capacity st * 2 ^ (j + k)"
    using j k by (simp add: add_all_ht_Cons power_add del: add_all_ht.simps)
  then show ?case ..
qed

subsection \<open>Rounding to binary32\<close>

lemma of_nat_less_pow2: "P < 2 ^ a \<Longrightarrow> (of_nat P :: rat) < 2 ^ a"
  using of_nat_less_iff [where ?'a = rat, of P "2 ^ a"] by simp

lemma pow2_le_of_nat: "2 ^ a \<le> P \<Longrightarrow> (2 :: rat) ^ a \<le> of_nat P"
  using of_nat_le_iff [where ?'a = rat, of "2 ^ a" P] by simp

lemma float_exponent_bounds:
  assumes "0 < x"
  shows "2 powi float_exponent x \<le> x \<and> x < 2 powi (float_exponent x + 1)"
proof -
  obtain p q where pq: "quotient_of x = (p, q)"
    by (cases "quotient_of x")
  have q: "0 < q" using pq by (rule quotient_of_denom_pos)
  have x: "x = of_int p / of_int q" using pq by (rule quotient_of_div)
  have p: "0 < p"
  proof (rule ccontr)
    assume "\<not> 0 < p"
    then have "of_int p / (of_int q :: rat) \<le> 0"
      using q by (simp add: divide_nonpos_pos)
    with assms x show False by simp
  qed
  define P Q where "P = nat p" and "Q = nat q"
  have PQ: "0 < P" "0 < Q" and xPQ: "x = of_nat P / of_nat Q"
    using p q x by (simp_all add: P_def Q_def)
  define a b where "a = floorlog 2 P" and "b = floorlog 2 Q"
  have Pb: "2 ^ (a - 1) \<le> P" "P < 2 ^ a" and Qb: "2 ^ (b - 1) \<le> Q" "Q < 2 ^ b"
    using floorlog_bounds [of P 2] floorlog_bounds [of Q 2] PQ by (simp_all add: a_def b_def)
  have a1: "1 \<le> a"
  proof (rule ccontr)
    assume "\<not> 1 \<le> a"
    then have "a = 0" by simp
    with Pb(2) PQ(1) show False by simp
  qed
  have b1: "1 \<le> b"
  proof (rule ccontr)
    assume "\<not> 1 \<le> b"
    then have "b = 0" by simp
    with Qb(2) PQ(2) show False by simp
  qed
  define d where "d = int a - int b"
  have upper: "x < 2 powi (d + 1)"
  proof -
    have "(of_nat P :: rat) / of_nat Q < 2 ^ a / 2 ^ (b - 1)"
    proof (rule frac_less)
      show "(0::rat) \<le> of_nat P" by simp
      show "(of_nat P :: rat) < 2 ^ a" using Pb(2) by (rule of_nat_less_pow2)
      show "(0::rat) < 2 ^ (b - 1)" by simp
      show "(2::rat) ^ (b - 1) \<le> of_nat Q" using Qb(1) by (rule pow2_le_of_nat)
    qed
    also have "(2::rat) ^ a / 2 ^ (b - 1) = 2 powi (int a - int (b - 1))"
      by (simp add: power_int_diff)
    finally have "x < 2 powi (int a - int (b - 1))"
      by (simp add: xPQ)
    moreover have "int a - int (b - 1) = d + 1"
      using b1 by (simp add: d_def)
    ultimately show ?thesis by simp
  qed
  have lower: "2 powi (d - 1) < x"
  proof -
    have de: "d - 1 = int (a - 1) - int b"
      using a1 by (simp add: d_def)
    have "(2::rat) powi (d - 1) = 2 ^ (a - 1) / 2 ^ b"
      unfolding de by (simp add: power_int_diff)
    also have "\<dots> < of_nat P / of_nat Q"
    proof (rule frac_less2)
      show "(0::rat) < 2 ^ (a - 1)" by simp
      show "(2::rat) ^ (a - 1) \<le> of_nat P" using Pb(1) by (rule pow2_le_of_nat)
      show "(0::rat) < of_nat Q" using PQ by simp
      show "(of_nat Q :: rat) < 2 ^ b" using Qb(2) by (rule of_nat_less_pow2)
    qed
    finally show ?thesis by (simp add: xPQ)
  qed
  have fe: "float_exponent x = (if 2 powi d \<le> x then d else d - 1)"
    by (simp add: float_exponent_def pq d_def a_def b_def P_def Q_def Let_def)
  show ?thesis
  proof (cases "2 powi d \<le> x")
    case True
    with upper fe show ?thesis by simp
  next
    case False
    with lower fe show ?thesis by simp
  qed
qed

lemma power_int_two_less_cancel:
  assumes "(2::rat) powi m < 2 powi n"
  shows "m < n"
proof (rule ccontr)
  assume "\<not> m < n"
  then have "(2::rat) powi n \<le> 2 powi m"
    by (intro power_int_increasing) simp_all
  with assms show False by simp
qed

lemma float_exponent_eq:
  assumes "0 < x" "2 powi e \<le> x" "x < 2 powi (e + 1)"
  shows "float_exponent x = e"
proof -
  from float_exponent_bounds [OF assms(1)]
  have f: "2 powi float_exponent x \<le> x" "x < 2 powi (float_exponent x + 1)"
    by simp_all
  have "float_exponent x < e + 1"
    using f(1) assms(3) by (intro power_int_two_less_cancel) simp
  moreover have "e < float_exponent x + 1"
    using f(2) assms(2) by (intro power_int_two_less_cancel) simp
  ultimately show ?thesis by simp
qed

lemma float_round_pos_bounds:
  assumes "u = 2 powi (float_exponent x - 23)"
  shows "of_int \<lfloor>x / u\<rfloor> * u \<le> float_round_pos x"
    and "float_round_pos x \<le> (of_int \<lfloor>x / u\<rfloor> + 1) * u"
proof -
  have u: "0 < u" by (simp add: assms zero_less_power_int)
  have fr: "float_round_pos x = of_int \<lfloor>x / u\<rfloor> * u \<or> float_round_pos x = (of_int \<lfloor>x / u\<rfloor> + 1) * u"
    by (simp add: float_round_pos_def Let_def assms)
  have "of_int \<lfloor>x / u\<rfloor> * u \<le> (of_int \<lfloor>x / u\<rfloor> + 1) * u"
    using u by (simp add: algebra_simps)
  with fr show "of_int \<lfloor>x / u\<rfloor> * u \<le> float_round_pos x"
    and "float_round_pos x \<le> (of_int \<lfloor>x / u\<rfloor> + 1) * u"
    by auto
qed

lemma float_round_pos_on_grid:
  assumes "x / 2 powi (float_exponent x - 23) = of_int k"
  shows "float_round_pos x = x"
proof -
  have "float_round_pos x = of_int k * 2 powi (float_exponent x - 23)"
    unfolding float_round_pos_def Let_def assms by simp
  also have "\<dots> = x / 2 powi (float_exponent x - 23) * 2 powi (float_exponent x - 23)"
    by (simp only: assms)
  also have "\<dots> = x"
    by simp
  finally show ?thesis .
qed

lemma float_grid:
  assumes "0 < m" "m < 2 ^ 24" "(2::rat) powi e \<le> of_int m * 2 powi j"
  shows "\<exists>T. of_int m * 2 powi j = (of_int T :: rat) * 2 powi (e - 23)"
proof -
  have pj: "(0::rat) < 2 powi j" by (simp add: zero_less_power_int)
  have "(of_int m :: rat) < 2 ^ 24"
    using assms(2) of_int_less_iff [where ?'a = rat, of m "2 ^ 24"] by simp
  then have "of_int m * 2 powi j < (2::rat) ^ 24 * 2 powi j"
    using pj by (simp add: mult_strict_right_mono)
  also have "(2::rat) ^ 24 * 2 powi j = 2 powi (24 + j)"
    by (simp add: power_int_add)
  finally have "(2::rat) powi e < 2 powi (24 + j)"
    using assms(3) by simp
  then have "e < 24 + j" by (rule power_int_two_less_cancel)
  define n where "n = nat (j - e + 23)"
  have n: "int n = j - e + 23"
    using \<open>e < 24 + j\<close> by (simp add: n_def)
  have "(2::rat) powi j = 2 powi (int n + (e - 23))"
    by (simp add: n)
  also have "\<dots> = 2 ^ n * 2 powi (e - 23)"
    by (simp add: power_int_add)
  finally have "of_int m * 2 powi j = (of_int (m * 2 ^ n) :: rat) * 2 powi (e - 23)"
    by simp
  then show ?thesis ..
qed

lemma float_round_pos_le:
  assumes "0 < x" "x \<le> of_int m * 2 powi j" "0 < m" "m < 2 ^ 24"
  shows "float_round_pos x \<le> of_int m * 2 powi j"
proof -
  define u :: rat where "u = 2 powi (float_exponent x - 23)"
  have u: "0 < u" by (simp add: u_def zero_less_power_int)
  have "2 powi float_exponent x \<le> x"
    using float_exponent_bounds [OF assms(1)] by simp
  with assms(2) have "(2::rat) powi float_exponent x \<le> of_int m * 2 powi j"
    by simp
  from float_grid [OF assms(3,4) this]
  obtain T where T: "of_int m * 2 powi j = (of_int T :: rat) * u"
    unfolding u_def by blast
  have "x / u \<le> of_int T"
    using assms(2) u by (simp add: T pos_divide_le_eq)
  then have qT: "\<lfloor>x / u\<rfloor> \<le> T"
    by (simp add: floor_le_iff)
  show ?thesis
  proof (cases "\<lfloor>x / u\<rfloor> = T")
    case True
    then have "of_int T \<le> x / u" by (metis of_int_floor_le)
    with \<open>x / u \<le> of_int T\<close> have xu: "x / u = of_int T" by simp
    then have "float_round_pos x = x"
      unfolding u_def by (rule float_round_pos_on_grid)
    with assms(2) show ?thesis by simp
  next
    case False
    with qT have "\<lfloor>x / u\<rfloor> + 1 \<le> T" by simp
    then have "(of_int \<lfloor>x / u\<rfloor> + 1 :: rat) \<le> of_int T"
      using of_int_le_iff [where ?'a = rat, of "\<lfloor>x / u\<rfloor> + 1" T] by simp
    then have "(of_int \<lfloor>x / u\<rfloor> + 1) * u \<le> of_int T * u"
      using u by (simp add: mult_right_mono)
    with float_round_pos_bounds(2) [OF u_def] show ?thesis
      by (simp add: T)
  qed
qed

lemma float_round_pos_ge:
  assumes "0 < x" "of_int m * 2 powi j \<le> x" "0 < m" "m < 2 ^ 24"
  shows "of_int m * 2 powi j \<le> float_round_pos x"
proof -
  define u :: rat where "u = 2 powi (float_exponent x - 23)"
  have u: "0 < u" by (simp add: u_def zero_less_power_int)
  have ex: "2 powi float_exponent x \<le> x"
    using float_exponent_bounds [OF assms(1)] by simp
  have eu: "(2::rat) powi float_exponent x = 2 ^ 23 * u"
    by (simp add: u_def power_int_diff)
  have low: "of_int \<lfloor>x / u\<rfloor> * u \<le> float_round_pos x"
    by (rule float_round_pos_bounds(1) [OF u_def])
  show ?thesis
  proof (cases "(2::rat) powi float_exponent x \<le> of_int m * 2 powi j")
    case True
    from float_grid [OF assms(3,4) this]
    obtain T where T: "of_int m * 2 powi j = (of_int T :: rat) * u"
      unfolding u_def by blast
    have "of_int T \<le> x / u"
      using assms(2) u by (simp add: T pos_le_divide_eq)
    then have "T \<le> \<lfloor>x / u\<rfloor>"
      by (simp add: le_floor_iff)
    then have "(of_int T :: rat) \<le> of_int \<lfloor>x / u\<rfloor>"
      by simp
    then have "of_int T * u \<le> of_int \<lfloor>x / u\<rfloor> * u"
      using u by (simp add: mult_right_mono)
    with low show ?thesis by (simp add: T)
  next
    case False
    have "(2::rat) ^ 23 \<le> x / u"
      using ex u by (simp add: eu pos_le_divide_eq)
    then have "(2::int) ^ 23 \<le> \<lfloor>x / u\<rfloor>"
      by (simp add: le_floor_iff)
    then have "(2::rat) ^ 23 \<le> of_int \<lfloor>x / u\<rfloor>"
      using of_int_le_iff [where ?'a = rat, of "2 ^ 23" "\<lfloor>x / u\<rfloor>"] by simp
    then have "2 ^ 23 * u \<le> of_int \<lfloor>x / u\<rfloor> * u"
      using u by (simp add: mult_right_mono)
    with low False show ?thesis by (simp add: eu)
  qed
qed

lemma float_round_pos_eq: "0 < x \<Longrightarrow> float_round x = float_round_pos x"
  by (simp add: float_round_def)

lemma float_round_le:
  assumes "0 < x" "x \<le> of_int m * 2 powi j" "0 < m" "m < 2 ^ 24"
  shows "float_round x \<le> of_int m * 2 powi j"
  using float_round_pos_le [OF assms] assms(1) by (simp add: float_round_pos_eq)

lemma float_round_ge:
  assumes "0 < x" "of_int m * 2 powi j \<le> x" "0 < m" "m < 2 ^ 24"
  shows "of_int m * 2 powi j \<le> float_round x"
  using float_round_pos_ge [OF assms] assms(1) by (simp add: float_round_pos_eq)

lemma float_round_representable:
  assumes "0 < m" "m < 2 ^ 24"
  shows "float_round (of_int m * 2 powi j) = of_int m * 2 powi j"
proof -
  have pos: "(0::rat) < of_int m * 2 powi j"
    using assms(1) by (simp add: zero_less_power_int)
  have "float_round (of_int m * 2 powi j) \<le> of_int m * 2 powi j"
    using pos _ assms by (rule float_round_le) simp
  moreover have "of_int m * 2 powi j \<le> float_round (of_int m * 2 powi j)"
    using pos _ assms by (rule float_round_ge) simp
  ultimately show ?thesis by simp
qed

lemma float_round_of_int_small:
  assumes "0 < n" "n < 2 ^ 24"
  shows "float_round (of_int n) = of_int n"
  using float_round_representable [OF assms, of 0] by simp

lemma float_round_capacity: "float_round (of_int (10 * 2 ^ k)) = of_int (10 * 2 ^ k)"
  using float_round_representable [of 10 "int k"] by simp

lemma float_round_ge_1:
  assumes "1 \<le> x"
  shows "1 \<le> float_round x"
  using float_round_ge [of x 1 0] assms by simp

lemma float_round_le_threshold:
  assumes "0 < x" "x \<le> 3 / 4"
  shows "float_round x \<le> 3 / 4"
proof -
  have "(of_int 3 :: rat) * 2 powi (- 2) = 3 / 4"
    by (simp add: power_int_minus field_simps)
  with float_round_le [of x 3 "- 2"] assms show ?thesis by simp
qed

lemma float_round_gt_threshold:
  assumes "3 / 4 + 1 / 2 ^ 25 < x"
  shows "3 / 4 < float_round x"
proof (cases "1 \<le> x")
  case True
  then have "1 \<le> float_round x" by (rule float_round_ge_1)
  then show ?thesis by simp
next
  case False
  have pos: "0 < x" using assms by (simp add: less_trans [OF _ assms])
  have half: "(2::rat) powi (- 1) \<le> x"
    using assms by (simp add: power_int_minus)
  have e: "float_exponent x = - 1"
    using pos half False by (intro float_exponent_eq) simp_all
  have u: "(2::rat) powi (float_exponent x - 23) = 1 / 2 ^ 24"
    by (simp add: e power_int_minus field_simps)
  define q where "q = \<lfloor>x * 2 ^ 24\<rfloor>"
  have m: "3 * 2 ^ 22 + 1 / 2 < x * 2 ^ 24"
    using assms by (simp add: field_simps)
  then have "(of_int (3 * 2 ^ 22) :: rat) \<le> x * 2 ^ 24"
    by simp
  then have q_ge: "3 * 2 ^ 22 \<le> q"
    unfolding q_def by (simp only: le_floor_iff)
  have fr: "float_round x =
      (if x * 2 ^ 24 - of_int q < 1 / 2 \<or> (x * 2 ^ 24 - of_int q = 1 / 2 \<and> even q)
       then of_int q else of_int q + 1) / 2 ^ 24"
    using pos by (simp add: float_round_pos_eq float_round_pos_def Let_def u q_def)
  show ?thesis
  proof (cases "q = 3 * 2 ^ 22")
    case True
    with m have "\<not> (x * 2 ^ 24 - of_int q < 1 / 2 \<or> (x * 2 ^ 24 - of_int q = 1 / 2 \<and> even q))"
      by simp
    then have "float_round x = (of_int q + 1) / 2 ^ 24"
      by (simp only: fr if_False)
    then show ?thesis by (simp add: True)
  next
    case False
    with q_ge have "3 * 2 ^ 22 + 1 \<le> q" by simp
    then have "(of_int (3 * 2 ^ 22 + 1) :: rat) \<le> of_int q"
      by (simp only: of_int_le_iff)
    then have "(3 * 2 ^ 22 + 1 :: rat) \<le> of_int q" by simp
    moreover have "of_int q / 2 ^ 24 \<le> float_round x"
      by (simp add: fr divide_right_mono)
    ultimately show ?thesis by (simp add: field_simps)
  qed
qed

lemma float_round_threshold: "float_round (3 / 4) = 3 / 4"
proof -
  have "(of_int 3 :: rat) * 2 powi (- 2) = 3 / 4"
    by (simp add: power_int_minus field_simps)
  with float_round_representable [of 3 "- 2"] show ?thesis by simp
qed

lemma float_round_31457281: "float_round (of_int 31457281) = 31457280"
proof -
  have e: "float_exponent (31457281 :: rat) = 24"
    by (intro float_exponent_eq) simp_all
  have fl: "\<lfloor>(31457281 :: rat) / 2\<rfloor> = 15728640"
    by (simp add: floor_eq_iff)
  show ?thesis
    by (simp add: float_round_def float_round_pos_def Let_def e fl)
qed

subsection \<open>The resize check\<close>

lemma load_factor_gt_imp:
  assumes "1 \<le> a" "3 / 4 < float_round (float_round (of_int a) / float_round (of_int (10 * 2 ^ k)))"
  shows "3 * (10 * 2 ^ k) < 4 * a"
proof (rule ccontr)
  assume "\<not> 3 * (10 * 2 ^ k) < 4 * a"
  then have le: "4 * a \<le> 3 * (10 * 2 ^ k)" by simp
  define A where "A = float_round (of_int a)"
  have A1: "1 \<le> A"
    unfolding A_def using assms(1) by (intro float_round_ge_1) simp
  have A2: "4 * A \<le> 3 * (10 * 2 ^ k)"
  proof (cases k)
    case 0
    with le have "a < 2 ^ 24" "a \<le> 7" by simp_all
    with assms(1) have "A = of_int a"
      unfolding A_def by (intro float_round_of_int_small) simp_all
    moreover have "(of_int a :: rat) \<le> 7"
      using \<open>a \<le> 7\<close> of_int_le_iff [where ?'a = rat, of a 7] by simp
    ultimately show ?thesis using 0 by simp
  next
    case (Suc j)
    with le have "a \<le> 15 * 2 ^ j" by simp
    then have "(of_int a :: rat) \<le> of_int (15 * 2 ^ j)"
      by (simp only: of_int_le_iff)
    then have "(of_int a :: rat) \<le> of_int 15 * 2 powi (int j)"
      by simp
    moreover have "(0::rat) < of_int a" using assms(1) by simp
    ultimately have "A \<le> of_int 15 * 2 powi (int j)"
      unfolding A_def by (intro float_round_le) simp_all
    then show ?thesis using Suc by simp
  qed
  have c: "float_round (10 * 2 ^ k) = 10 * 2 ^ k"
    using float_round_capacity [of k] by simp
  have "A / (10 * 2 ^ k) \<le> 3 / 4"
    using A2 by (simp add: field_simps)
  moreover have "0 < A / (10 * 2 ^ k)"
    using A1 by simp
  ultimately have "float_round (A / (10 * 2 ^ k)) \<le> 3 / 4"
    by (intro float_round_le_threshold)
  with assms(2) show False
    by (simp add: A_def c)
qed

lemma load_factor_gt_if:
  assumes "1 \<le> a" "a < 2 ^ 24" "(10::int) * 2 ^ k < 2 ^ 25" "3 * (10 * 2 ^ k) < 4 * a"
  shows "3 / 4 < float_round (float_round (of_int a) / float_round (of_int (10 * 2 ^ k)))"
proof -
  have A: "float_round (of_int a) = of_int a"
    using assms(1,2) by (intro float_round_of_int_small) simp_all
  have c: "float_round (of_int (10 * 2 ^ k)) = of_int (10 * 2 ^ k)"
    by (rule float_round_capacity)
  have "(3 * 2 ^ 25 + 4) * (10 * 2 ^ k) < 2 ^ 27 * a"
  proof (cases k)
    case 0
    with assms(4) have "8 \<le> a" by simp
    with 0 show ?thesis by simp
  next
    case (Suc j)
    with assms(4) have "15 * 2 ^ j + 1 \<le> a" by simp
    then have "2 ^ 27 * (15 * 2 ^ j + 1) \<le> 2 ^ 27 * a" by simp
    moreover have "(3 * 2 ^ 25 + 4) * (10 * 2 ^ k) < 2 ^ 27 * (15 * 2 ^ j + (1::int))"
      using assms(3) Suc by simp
    ultimately show ?thesis by simp
  qed
  then have "(of_int ((3 * 2 ^ 25 + 4) * (10 * 2 ^ k)) :: rat) < of_int (2 ^ 27 * a)"
    by (simp only: of_int_less_iff)
  then have "(3 / 4 + 1 / 2 ^ 25) * (of_int (10 * 2 ^ k) :: rat) < of_int a"
    by (simp add: field_simps)
  moreover have "(0::rat) < of_int (10 * 2 ^ k)" by simp
  ultimately have "3 / 4 + 1 / 2 ^ 25 < (of_int a :: rat) / of_int (10 * 2 ^ k)"
    by (simp only: pos_less_divide_eq)
  then show ?thesis
    unfolding A c by (rule float_round_gt_threshold)
qed

lemma load_inv_create: "load_inv st_create_ht"
proof -
  have "capacity st_create_ht = 10 * 2 ^ 0"
    by (simp add: st_create_ht_def INITIAL_TABLE_SIZE_def)
  then have "\<exists>k. capacity st_create_ht = 10 * 2 ^ k" ..
  then show ?thesis
    by (simp add: load_inv_def ht_inv_create) (simp add: st_create_ht_def INITIAL_TABLE_SIZE_def)
qed

lemma resize_check_imp:
  assumes "capacity st = 10 * 2 ^ k" "0 \<le> size_ht st"
    "LOAD_FACTOR_THRESHOLD < load_factor_of st"
  shows "3 * capacity st < 4 * (size_ht st + 1)"
proof -
  have "1 \<le> size_ht st + 1" using assms(2) by simp
  moreover have "3 / 4 < float_round (float_round (of_int (size_ht st + 1)) /
      float_round (of_int (10 * 2 ^ k)))"
    using assms(3) by (simp add: load_factor_of_def LOAD_FACTOR_THRESHOLD_def assms(1))
  ultimately have "3 * (10 * 2 ^ k) < 4 * (size_ht st + 1)"
    by (rule load_factor_gt_imp)
  then show ?thesis by (simp add: assms(1))
qed

lemma resize_check_if:
  assumes "capacity st = 10 * 2 ^ k" "0 \<le> size_ht st" "size_ht st + 1 < 2 ^ 24"
    "capacity st < 2 ^ 25" "3 * capacity st < 4 * (size_ht st + 1)"
  shows "LOAD_FACTOR_THRESHOLD < load_factor_of st"
proof -
  have "1 \<le> size_ht st + 1" using assms(2) by simp
  moreover have "(10::int) * 2 ^ k < 2 ^ 25" "3 * (10 * 2 ^ k) < 4 * (size_ht st + 1)"
    using assms(1,4,5) by simp_all
  ultimately have "3 / 4 < float_round (float_round (of_int (size_ht st + 1)) /
      float_round (of_int (10 * 2 ^ k)))"
    using assms(3) by (intro load_factor_gt_if)
  then show ?thesis
    by (simp add: load_factor_of_def LOAD_FACTOR_THRESHOLD_def assms(1))
qed

lemma capacity_below:
  assumes "(10::int) * 2 ^ k < 10 * 2 ^ Suc j"
  shows "(10::int) * 2 ^ k \<le> 10 * 2 ^ j"
proof -
  from assms have "(2::int) ^ k < 2 ^ Suc j" by simp
  then have "k < Suc j" by (simp only: power_strict_increasing_iff)
  then have "k \<le> j" by simp
  then have "(2::int) ^ k \<le> 2 ^ j" by (simp only: power_increasing_iff)
  then show ?thesis by simp
qed

lemma load_inv_add_new:
  assumes "load_inv st" "nm \<notin> ht_names st" "size_ht st + 1 \<le> 31457280"
  shows "load_inv (snd (st_add_ht st nm))"
proof -
  from assms(1) have inv: "ht_inv st" by (simp add: load_inv_def)
  then have p: "ht_placed st" by (simp add: ht_inv_def)
  from assms(1) obtain k where k: "capacity st = 10 * 2 ^ k"
    by (auto simp: load_inv_def)
  from inv have s0: "0 \<le> size_ht st" by (simp add: ht_inv_def)
  from assms(1) have le: "4 * size_ht st \<le> 3 * capacity st"
    and lo: "capacity st = 10 \<or> 3 * capacity st < 8 * size_ht st"
    by (simp_all add: load_inv_def)
  let ?st' = "snd (st_add_ht st nm)"
  have inv': "ht_inv ?st'" using inv by (rule st_add_ht_inv)
  have st': "?st' = ht_insert (maybe_resize st) nm"
    using inv assms(2) by (simp add: st_add_ht_absent)
  have size': "size_ht ?st' = size_ht st + 1"
    by (simp add: st' ht_insert_fields maybe_resize_facts(4) [OF inv])
  have cap': "capacity ?st' = capacity (maybe_resize st)"
    by (simp add: st' ht_insert_fields)
  show ?thesis
  proof (cases "LOAD_FACTOR_THRESHOLD < load_factor_of st")
    case True
    then have c2: "capacity ?st' = capacity st * 2"
      by (simp add: cap' maybe_resize_def st_resize_facts(1) [OF p])
    have gt: "3 * capacity st < 4 * (size_ht st + 1)"
      using k s0 True by (rule resize_check_imp)
    have "capacity ?st' = 10 * 2 ^ Suc k"
      by (simp add: c2 k)
    then have "\<exists>j. capacity ?st' = 10 * 2 ^ j" ..
    moreover have "10 \<le> capacity st"
      by (simp add: k)
    ultimately show ?thesis
      using inv' le gt by (simp add: load_inv_def size' c2)
  next
    case False
    then have c1: "capacity ?st' = capacity st"
      by (simp add: cap' maybe_resize_def)
    have "4 * (size_ht st + 1) \<le> 3 * capacity st"
    proof (rule ccontr)
      assume "\<not> 4 * (size_ht st + 1) \<le> 3 * capacity st"
      then have gt: "3 * capacity st < 4 * (size_ht st + 1)" by simp
      with assms(3) have "(10::int) * 2 ^ k < 10 * 2 ^ Suc 21"
        by (simp add: k)
      then have "(10::int) * 2 ^ k \<le> 10 * 2 ^ 21"
        by (rule capacity_below)
      then have c: "capacity st \<le> 20971520"
        by (simp add: k)
      then have "capacity st < 2 ^ 25" by simp
      moreover have "size_ht st + 1 < 2 ^ 24"
        using le c by simp
      ultimately have "LOAD_FACTOR_THRESHOLD < load_factor_of st"
        using k s0 gt by (intro resize_check_if)
      with False show False by simp
    qed
    moreover have "\<exists>j. capacity ?st' = 10 * 2 ^ j"
      using k c1 by auto
    ultimately show ?thesis
      using inv' lo s0 by (auto simp: load_inv_def size' c1)
  qed
qed

lemma load_inv_add_all:
  assumes "load_inv st" "int (card (ht_names st \<union> set ns)) \<le> 31457280"
  shows "load_inv (snd (add_all_ht st ns))"
  using assms
proof (induction ns arbitrary: st)
  case Nil
  then show ?case by simp
next
  case (Cons n ns)
  from Cons.prems(1) have inv: "ht_inv st" by (simp add: load_inv_def)
  let ?st1 = "snd (st_add_ht st n)"
  have names1: "ht_names ?st1 = insert n (ht_names st)"
    using inv by (rule st_add_ht_names)
  have fin: "finite (ht_names st)" by (simp add: ht_names_def)
  have l1: "load_inv ?st1"
  proof (cases "n \<in> ht_names st")
    case True
    with inv Cons.prems(1) show ?thesis by (simp add: st_add_ht_present)
  next
    case False
    have "card (insert n (ht_names st)) \<le> card (ht_names st \<union> set (n # ns))"
      using fin by (intro card_mono) auto
    with False fin Cons.prems(2) have "size_ht st + 1 \<le> 31457280"
      by (simp add: ht_size_card [OF inv])
    with Cons.prems(1) False show ?thesis by (rule load_inv_add_new)
  qed
  have "ht_names ?st1 \<union> set ns = ht_names st \<union> set (n # ns)"
    by (auto simp: names1)
  with Cons.prems(2) have "int (card (ht_names ?st1 \<union> set ns)) \<le> 31457280"
    by simp
  from Cons.IH [OF l1 this] show ?case
    by (simp add: add_all_ht_Cons del: add_all_ht.simps)
qed

lemma load_inv_ht_after:
  assumes "int (card (set ns)) \<le> 31457280"
  shows "load_inv (ht_after ns)"
  unfolding ht_after_def
proof (rule load_inv_add_all [OF load_inv_create])
  show "int (card (ht_names st_create_ht \<union> set ns)) \<le> 31457280"
    using assms by (simp add: ht_names_create)
qed

subsection \<open>Later additions keep earlier positions\<close>

lemma entries_st_add_ht:
  assumes "ht_inv st"
  shows "set (ht_entries st) \<subseteq> set (ht_entries (snd (st_add_ht st m)))"
proof (cases "m \<in> ht_names st")
  case True
  with assms show ?thesis by (simp add: st_add_ht_present)
next
  case False
  have "ht_placed (maybe_resize st)"
    using maybe_resize_facts(1) [OF assms] by (simp add: ht_inv_def)
  then have "set (ht_entries (ht_insert (maybe_resize st) m)) =
      set (create_entry m (next_position (maybe_resize st)) # ht_entries (maybe_resize st))"
    using ht_insert_entries [of "maybe_resize st" m] by (intro mset_eq_setD) simp
  with assms False show ?thesis
    by (auto simp: st_add_ht_absent maybe_resize_facts(3) [OF assms])
qed

lemma st_search_ht_add_other:
  assumes "ht_inv st" "n \<in> ht_names st"
  shows "st_search_ht (snd (st_add_ht st m)) n = st_search_ht st n"
proof -
  from assms(2) obtain e where e: "e \<in> set (ht_entries st)" "name e = n"
    by (auto simp: ht_names_def)
  have inv': "ht_inv (snd (st_add_ht st m))"
    using assms(1) by (rule st_add_ht_inv)
  have e': "e \<in> set (ht_entries (snd (st_add_ht st m)))"
    using entries_st_add_ht [OF assms(1), of m] e(1) by auto
  show ?thesis
    using st_search_ht_present [OF assms(1) e(1)] st_search_ht_present [OF inv' e'] e(2)
    by simp
qed

lemma st_search_ht_add_all_other:
  "ht_inv st \<Longrightarrow> n \<in> ht_names st \<Longrightarrow>
   st_search_ht (snd (add_all_ht st ns)) n = st_search_ht st n"
proof (induction ns arbitrary: st)
  case Nil
  then show ?case by simp
next
  case (Cons m ns)
  let ?st1 = "snd (st_add_ht st m)"
  have "ht_inv ?st1" using Cons.prems(1) by (rule st_add_ht_inv)
  moreover have "n \<in> ht_names ?st1"
    using Cons.prems by (simp add: st_add_ht_names)
  ultimately have "st_search_ht (snd (add_all_ht ?st1 ns)) n = st_search_ht ?st1 n"
    by (rule Cons.IH)
  with Cons.prems show ?case
    by (simp add: add_all_ht_Cons st_search_ht_add_other del: add_all_ht.simps)
qed

lemma st_search_ht_add_all_nth:
  assumes "ht_inv st" "distinct ns" "set ns \<inter> ht_names st = {}" "i < length ns"
  shows "st_search_ht (snd (add_all_ht st ns)) (ns ! i) = next_position st + int i"
  using assms
proof (induction ns arbitrary: st i)
  case Nil
  then show ?case by simp
next
  case (Cons n ns)
  let ?st1 = "snd (st_add_ht st n)"
  from Cons.prems have new: "n \<notin> ht_names st" by simp
  have inv1: "ht_inv ?st1" using Cons.prems(1) by (rule st_add_ht_inv)
  have names1: "ht_names ?st1 = insert n (ht_names st)"
    using Cons.prems(1) by (rule st_add_ht_names)
  show ?case
  proof (cases i)
    case 0
    have "st_search_ht (snd (add_all_ht ?st1 ns)) n = st_search_ht ?st1 n"
      using inv1 by (rule st_search_ht_add_all_other) (simp add: names1)
    also have "\<dots> = fst (st_add_ht st n)"
      using Cons.prems(1) by (rule st_search_after_add_ht)
    also have "\<dots> = next_position st"
      using Cons.prems(1) new by (simp add: st_add_ht_absent)
    finally show ?thesis
      using 0 by (simp add: add_all_ht_Cons del: add_all_ht.simps)
  next
    case (Suc j)
    have disj: "set ns \<inter> ht_names ?st1 = {}"
      using Cons.prems by (auto simp: names1)
    have "st_search_ht (snd (add_all_ht ?st1 ns)) (ns ! j) = next_position ?st1 + int j"
      using inv1 _ disj by (rule Cons.IH) (use Cons.prems Suc in simp_all)
    moreover have "next_position ?st1 = next_position st + 1"
      using Cons.prems(1) new by (rule st_add_ht_next_position)
    ultimately show ?thesis
      using Suc by (simp add: add_all_ht_Cons del: add_all_ht.simps)
  qed
qed

lemma add_all_ht_append:
  "snd (add_all_ht st (xs @ ys)) = snd (add_all_ht (snd (add_all_ht st xs)) ys)"
proof (induction xs arbitrary: st)
  case Nil
  show ?case by simp
next
  case (Cons x xs)
  from Cons.IH [of "snd (st_add_ht st x)"] show ?case
    by (simp only: append_Cons add_all_ht_Cons snd_conv)
qed

lemma ht_after_distinct:
  assumes "distinct ns" "length ns \<le> 31457280"
  shows "load_inv (ht_after ns)" and "size_ht (ht_after ns) = int (length ns)"
proof -
  have c: "card (set ns) = length ns"
    using assms(1) by (rule distinct_card)
  show "load_inv (ht_after ns)"
    using assms(2) by (intro load_inv_ht_after) (simp add: c)
  show "size_ht (ht_after ns) = int (length ns)"
    using ht_size_card [OF ht_after_inv, of ns] by (simp add: ht_after_names c)
qed

subsection \<open>The first resize, and the table at 31457280 entries\<close>

lemma capacity_small:
  assumes "load_inv st" "size_ht st \<le> 7"
  shows "capacity st = 10"
proof (rule ccontr)
  assume ne: "capacity st \<noteq> 10"
  from assms(1) obtain k where k: "capacity st = 10 * 2 ^ k"
    by (auto simp: load_inv_def)
  from assms ne have "3 * capacity st < 56"
    by (simp add: load_inv_def)
  then have "(10::int) * 2 ^ k < 10 * 2 ^ Suc 0"
    by (simp add: k)
  then have "(10::int) * 2 ^ k \<le> 10 * 2 ^ 0"
    by (rule capacity_below)
  moreover have "(1::int) \<le> 2 ^ k" by simp
  ultimately show False using ne by (simp add: k)
qed

lemma capacity_after_first_resize:
  assumes "load_inv st" "8 \<le> size_ht st" "size_ht st \<le> 9"
  shows "capacity st = 20"
proof -
  from assms(1) obtain k where k: "capacity st = 10 * 2 ^ k"
    by (auto simp: load_inv_def)
  from assms have ge: "32 \<le> 3 * capacity st"
    by (simp add: load_inv_def)
  then have ne: "capacity st \<noteq> 10" by simp
  with assms have "3 * capacity st < 72"
    by (simp add: load_inv_def)
  then have "(10::int) * 2 ^ k < 10 * 2 ^ Suc 1"
    by (simp add: k)
  then have le: "(10::int) * 2 ^ k \<le> 10 * 2 ^ 1"
    by (rule capacity_below)
  have "k \<noteq> 0"
  proof
    assume "k = 0"
    with k ne show False by simp
  qed
  then have "(2::int) ^ 1 \<le> 2 ^ k"
    by (intro power_increasing) simp_all
  with le show ?thesis by (simp add: k)
qed

lemma resize_check_small:
  assumes "load_inv st" "size_ht st \<le> 9"
  shows "LOAD_FACTOR_THRESHOLD < load_factor_of st \<longleftrightarrow> size_ht st = 7"
proof -
  from assms(1) obtain k where k: "capacity st = 10 * 2 ^ k"
    by (auto simp: load_inv_def)
  from assms(1) have s0: "0 \<le> size_ht st"
    by (simp add: load_inv_def ht_inv_def)
  have cap: "capacity st = (if size_ht st \<le> 7 then 10 else 20)"
    using capacity_small [OF assms(1)] capacity_after_first_resize [OF assms(1)] assms(2)
    by auto
  have "LOAD_FACTOR_THRESHOLD < load_factor_of st \<longleftrightarrow> 3 * capacity st < 4 * (size_ht st + 1)"
  proof
    assume "LOAD_FACTOR_THRESHOLD < load_factor_of st"
    with k s0 show "3 * capacity st < 4 * (size_ht st + 1)" by (rule resize_check_imp)
  next
    assume "3 * capacity st < 4 * (size_ht st + 1)"
    with k s0 show "LOAD_FACTOR_THRESHOLD < load_factor_of st"
      using assms(2) cap by (intro resize_check_if) (simp_all split: if_splits)
  qed
  with cap s0 assms(2) show ?thesis by (auto split: if_splits)
qed

lemma load_factor_at_31457280:
  assumes "size_ht st = 31457280" "capacity st = 41943040"
  shows "load_factor_of st = 3 / 4"
proof -
  have "float_round (of_int (10 * 2 ^ 22)) = (of_int (10 * 2 ^ 22) :: rat)"
    by (rule float_round_capacity)
  then have c: "float_round 41943040 = 41943040"
    by simp
  have a: "float_round (31457281 :: rat) = 31457280"
    using float_round_31457281 by simp
  show ?thesis
    by (simp add: load_factor_of_def assms a c float_round_threshold)
qed

lemma st_search_ht_after_add_all:
  assumes "ht_inv st"
  shows "st_search_ht (snd (add_all_ht (snd (st_add_ht st n)) ms)) n = fst (st_add_ht st n)"
proof -
  have "ht_inv (snd (st_add_ht st n))"
    using assms by (rule st_add_ht_inv)
  moreover have "n \<in> ht_names (snd (st_add_ht st n))"
    using assms by (simp add: st_add_ht_names)
  ultimately have "st_search_ht (snd (add_all_ht (snd (st_add_ht st n)) ms)) n
      = st_search_ht (snd (st_add_ht st n)) n"
    by (rule st_search_ht_add_all_other)
  with assms show ?thesis by (simp add: st_search_after_add_ht)
qed

lemma grown_inv_create: "grown_inv st_create_ht"
  using load_inv_create by (simp add: grown_inv_def load_inv_def)

lemma grown_inv_add:
  assumes "grown_inv st"
  shows "grown_inv (snd (st_add_ht st nm))"
proof (cases "nm \<in> ht_names st")
  case True
  with assms show ?thesis by (simp add: grown_inv_def st_add_ht_present)
next
  case False
  from assms have inv: "ht_inv st" by (simp add: grown_inv_def)
  then have p: "ht_placed st" by (simp add: ht_inv_def)
  from assms obtain k where k: "capacity st = 10 * 2 ^ k"
    by (auto simp: grown_inv_def)
  from inv have s0: "0 \<le> size_ht st" by (simp add: ht_inv_def)
  from assms have lo: "capacity st = 10 \<or> 3 * capacity st < 8 * size_ht st"
    by (simp add: grown_inv_def)
  let ?st' = "snd (st_add_ht st nm)"
  have inv': "ht_inv ?st'" using inv by (rule st_add_ht_inv)
  have st': "?st' = ht_insert (maybe_resize st) nm"
    using inv False by (simp add: st_add_ht_absent)
  have size': "size_ht ?st' = size_ht st + 1"
    by (simp add: st' ht_insert_fields maybe_resize_facts(4) [OF inv])
  have cap': "capacity ?st' = capacity (maybe_resize st)"
    by (simp add: st' ht_insert_fields)
  show ?thesis
  proof (cases "LOAD_FACTOR_THRESHOLD < load_factor_of st")
    case True
    then have c2: "capacity ?st' = capacity st * 2"
      by (simp add: cap' maybe_resize_def st_resize_facts(1) [OF p])
    have gt: "3 * capacity st < 4 * (size_ht st + 1)"
      using k s0 True by (rule resize_check_imp)
    have "capacity ?st' = 10 * 2 ^ Suc k"
      by (simp add: c2 k)
    then have "\<exists>j. capacity ?st' = 10 * 2 ^ j" ..
    then show ?thesis
      using inv' gt by (simp add: grown_inv_def size' c2)
  next
    case False
    then have c1: "capacity ?st' = capacity st"
      by (simp add: cap' maybe_resize_def)
    have "\<exists>j. capacity ?st' = 10 * 2 ^ j"
      using k c1 by auto
    then show ?thesis
      using inv' lo s0 by (auto simp: grown_inv_def size' c1)
  qed
qed

lemma grown_inv_add_all: "grown_inv st \<Longrightarrow> grown_inv (snd (add_all_ht st ns))"
proof (induction ns arbitrary: st)
  case Nil
  then show ?case by simp
next
  case (Cons n ns)
  from Cons.IH [OF grown_inv_add [OF Cons.prems, of n]] show ?case
    by (simp add: add_all_ht_Cons del: add_all_ht.simps)
qed

lemma grown_inv_ht_after: "grown_inv (ht_after ns)"
  unfolding ht_after_def using grown_inv_create by (rule grown_inv_add_all)

lemma ht_after_int_range:
  assumes "int (card (set ns)) \<le> 503316480"
  shows "size_ht (ht_after ns) + 1 < 2 ^ 31 \<and> next_position (ht_after ns) + 1 < 2 ^ 31
       \<and> capacity (ht_after ns) < 2 ^ 31"
proof -
  have g: "grown_inv (ht_after ns)" by (rule grown_inv_ht_after)
  then have inv: "ht_inv (ht_after ns)" by (simp add: grown_inv_def)
  have sz: "size_ht (ht_after ns) = int (card (set ns))"
    using ht_size_card [OF inv] by (simp add: ht_after_names)
  from inv have np: "next_position (ht_after ns) = size_ht (ht_after ns)"
    by (simp add: ht_inv_def)
  from g sz assms have "3 * capacity (ht_after ns) < 8 * 503316480 + 1"
    by (auto simp: grown_inv_def)
  with sz np assms show ?thesis by simp
qed

subsection \<open>Distinct names\<close>

lemma name_bits_0: "name_bits 0 = []"
  by (simp add: name_bits.simps [of 0])

lemma name_bits_pos:
  "n \<noteq> 0 \<Longrightarrow>
   name_bits n = (if even n then CHR ''0'' else CHR ''1'') # name_bits (n div 2)"
  by (simp add: name_bits.simps [of n])

lemma name_bits_Nil: "name_bits n = [] \<longleftrightarrow> n = 0"
  by (cases "n = 0") (simp_all add: name_bits_0 name_bits_pos)

lemma name_bits_inj: "name_bits n = name_bits m \<Longrightarrow> n = m"
proof (induction n arbitrary: m rule: name_bits.induct)
  case (1 n)
  show ?case
  proof (cases "n = 0")
    case True
    with "1.prems" name_bits_Nil [of m] show ?thesis
      by (simp add: name_bits_0)
  next
    case False
    have m: "m \<noteq> 0"
    proof
      assume "m = 0"
      with "1.prems" have "name_bits n = []" by (simp add: name_bits_0)
      with False show False by (simp add: name_bits_Nil)
    qed
    from "1.prems" have par: "even n \<longleftrightarrow> even m"
      and rest: "name_bits (n div 2) = name_bits (m div 2)"
      by (simp_all add: name_bits_pos [OF False] name_bits_pos [OF m] split: if_splits)
    from "1.IH" [OF False rest] have "n div 2 = m div 2" .
    moreover from par have "n mod 2 = m mod 2"
      by (simp add: even_iff_mod_2_eq_zero) (metis not_mod_2_eq_0_eq_1)
    ultimately show ?thesis
      by (metis div_mult_mod_eq)
  qed
qed

lemma inj_symbol_name: "inj symbol_name"
  by (rule injI) (simp add: symbol_name_def name_bits_inj)

lemma distinct_symbol_names: "distinct (map symbol_name [0..<n])"
  by (simp only: distinct_map distinct_upt) (simp add: inj_symbol_name inj_on_subset [OF _ subset_UNIV])

section \<open>The claims\<close>

text \<open>
  Claim C1. For every sequence of pairwise distinct names added to a fresh table, the
  positions returned by \<open>st_add\<close> are \<open>0, 1, 2, \<dots>\<close> in the order of the calls, in
  the BST backend and in the hash backend.
\<close>

theorem C1_positions_in_insertion_order:
  assumes "distinct ns"
  shows "fst (add_all_bst st_create_bst ns) = map int [0..<length ns]
       \<and> fst (add_all_ht st_create_ht ns) = map int [0..<length ns]"
proof
  have "set ns \<inter> names_of (root st_create_bst) = {}"
    by (simp add: st_create_bst_def)
  from add_all_bst_distinct [OF bst_inv_create assms this]
  show "fst (add_all_bst st_create_bst ns) = map int [0..<length ns]"
    by (simp add: st_create_bst_def)
  have "set ns \<inter> ht_names st_create_ht = {}"
    by (simp add: ht_names_create)
  from add_all_ht_distinct [OF ht_inv_create assms this]
  show "fst (add_all_ht st_create_ht ns) = map int [0..<length ns]"
    by (simp add: st_create_ht_def)
qed

theorem C1_witness:
  "distinct [''variable1'', ''count'', ''sum'', ''array'', ''index'']
   \<and> fst (add_all_bst st_create_bst [''variable1'', ''count'', ''sum'', ''array'', ''index''])
       = [0, 1, 2, 3, 4]
   \<and> fst (add_all_ht st_create_ht [''variable1'', ''count'', ''sum'', ''array'', ''index''])
       = [0, 1, 2, 3, 4]"
proof -
  have d: "distinct [''variable1'', ''count'', ''sum'', ''array'', ''index'']"
    by simp
  have "map int [0..<length [''variable1'', ''count'', ''sum'', ''array'', ''index'']]
      = [0, 1, 2, 3, 4]"
    by (simp add: upt_rec)
  with d C1_positions_in_insertion_order [OF d] show ?thesis
    by simp
qed

text \<open>
  Claim C2. Round trip: in every table reached from a fresh one by \<open>st_add\<close> calls, and
  for every name, the position returned by \<open>st_add\<close> is the position \<open>st_search\<close> returns
  for that name afterwards, directly or after any further \<open>st_add\<close> calls, in both
  backends.
\<close>

theorem C2_search_returns_added_position:
  "st_search_bst (snd (add_all_bst (snd (st_add_bst (bst_after ns) n)) ms)) n
     = fst (st_add_bst (bst_after ns) n)
   \<and> st_search_ht (snd (add_all_ht (snd (st_add_ht (ht_after ns) n)) ms)) n
     = fst (st_add_ht (ht_after ns) n)"
  by (simp add: st_search_bst_after_add_all st_search_ht_after_add_all ht_after_inv)

theorem C2_witness:
  "st_search_bst (snd (st_add_bst (bst_after [''variable1'', ''count'']) ''sum'')) ''sum'' = 2
   \<and> st_search_bst (snd (add_all_bst
         (snd (st_add_bst (bst_after [''variable1'', ''count'']) ''sum'')) [''array'', ''index'']))
       ''sum'' = 2
   \<and> fst (st_add_bst (bst_after [''variable1'', ''count'']) ''sum'') = 2
   \<and> st_search_ht (snd (st_add_ht (ht_after [''variable1'', ''count'']) ''sum'')) ''sum'' = 2
   \<and> st_search_ht (snd (add_all_ht
         (snd (st_add_ht (ht_after [''variable1'', ''count'']) ''sum'')) [''array'', ''index'']))
       ''sum'' = 2
   \<and> fst (st_add_ht (ht_after [''variable1'', ''count'']) ''sum'') = 2"
proof -
  have "fst (st_add_bst (bst_after [''variable1'', ''count'']) ''sum'') = 2"
    by code_simp
  moreover have "fst (st_add_ht (ht_after [''variable1'', ''count'']) ''sum'') = 2"
    by code_simp
  ultimately show ?thesis
    using C2_search_returns_added_position [of "[''variable1'', ''count'']" "''sum''" "[]"]
      C2_search_returns_added_position
        [of "[''variable1'', ''count'']" "''sum''" "[''array'', ''index'']"]
    by simp
qed

text \<open>
  Claim C3. Idempotent insert: in every table reached from a fresh one, adding a name a
  second time returns the same position and leaves the table as the first call left it
  (no mutation, no position consumed); and after any sequence of calls the size (and, in
  the hash backend, the position counter) is the number of distinct names added, in
  both backends.
\<close>

theorem C3_add_is_idempotent:
  "st_add_bst (snd (st_add_bst (bst_after ns) n)) n = st_add_bst (bst_after ns) n
   \<and> size_bst (bst_after ns) = int (card (set ns))
   \<and> st_add_ht (snd (st_add_ht (ht_after ns) n)) n = st_add_ht (ht_after ns) n
   \<and> size_ht (ht_after ns) = int (card (set ns))
   \<and> next_position (ht_after ns) = int (card (set ns))"
proof -
  have "size_bst (bst_after ns) = int (card (set ns))"
    using bst_after_inv [of ns] by (simp add: bst_inv_def bst_after_names)
  moreover have "size_ht (ht_after ns) = int (card (set ns))"
    using ht_size_card [OF ht_after_inv, of ns] by (simp add: ht_after_names)
  moreover have "next_position (ht_after ns) = size_ht (ht_after ns)"
    using ht_after_inv [of ns] by (simp add: ht_inv_def)
  ultimately show ?thesis
    by (simp add: st_add_bst_twice st_add_ht_twice ht_after_inv)
qed

theorem C3_witness:
  "st_add_bst (snd (st_add_bst (bst_after [''variable1'', ''count'', ''sum'']) ''count'')) ''count''
     = st_add_bst (bst_after [''variable1'', ''count'', ''sum'']) ''count''
   \<and> fst (st_add_bst (bst_after [''variable1'', ''count'', ''sum'']) ''count'') = 1
   \<and> size_bst (bst_after [''variable1'', ''count'', ''sum'', ''count'']) = 3
   \<and> st_add_ht (snd (st_add_ht (ht_after [''variable1'', ''count'', ''sum'']) ''count'')) ''count''
     = st_add_ht (ht_after [''variable1'', ''count'', ''sum'']) ''count''
   \<and> fst (st_add_ht (ht_after [''variable1'', ''count'', ''sum'']) ''count'') = 1
   \<and> size_ht (ht_after [''variable1'', ''count'', ''sum'', ''count'']) = 3
   \<and> next_position (ht_after [''variable1'', ''count'', ''sum'', ''count'']) = 3"
proof -
  have "fst (st_add_bst (bst_after [''variable1'', ''count'', ''sum'']) ''count'') = 1"
    by code_simp
  moreover have "fst (st_add_ht (ht_after [''variable1'', ''count'', ''sum'']) ''count'') = 1"
    by code_simp
  moreover have "card (set [''variable1'', ''count'', ''sum'', ''count'']) = 3"
    by code_simp
  ultimately show ?thesis
    using C3_add_is_idempotent [of "[''variable1'', ''count'', ''sum'']" "''count''"]
      C3_add_is_idempotent [of "[''variable1'', ''count'', ''sum'', ''count'']" "''count''"]
    by simp
qed

text \<open>
  Claim C4. In every hash table reached from a fresh one, \<open>st_resize\<close> doubles the
  capacity and keeps the entries as a multiset of (name, position) records: none is
  changed, lost or duplicated; the size counted while rehashing is the size before; and
  \<open>st_search\<close> returns for every name what it returned before, which is a position (not
  \<open>-1\<close>) for every name that was added.
\<close>

theorem C4_resize_preserves_contents:
  "capacity (st_resize (ht_after ns)) = 2 * capacity (ht_after ns)
   \<and> mset (ht_entries (st_resize (ht_after ns))) = mset (ht_entries (ht_after ns))
   \<and> size_ht (st_resize (ht_after ns)) = size_ht (ht_after ns)
   \<and> st_search_ht (st_resize (ht_after ns)) n = st_search_ht (ht_after ns) n
   \<and> (n \<in> set ns \<longrightarrow> 0 \<le> st_search_ht (st_resize (ht_after ns)) n)"
proof -
  have i: "ht_inv (ht_after ns)" by (rule ht_after_inv)
  then have p: "ht_placed (ht_after ns)" by (simp add: ht_inv_def)
  from i have sz: "size_ht (st_resize (ht_after ns)) = size_ht (ht_after ns)"
    by (simp add: st_resize_facts(5) [OF p] ht_inv_def)
  have "0 \<le> st_search_ht (ht_after ns) n" if "n \<in> set ns"
  proof -
    from that obtain e where e: "e \<in> set (ht_entries (ht_after ns))" "name e = n"
      by (auto simp: ht_after_names [symmetric] ht_names_def)
    from i e(1) have "0 \<le> position e" by (simp add: ht_inv_def)
    with st_search_ht_present [OF i e(1)] e(2) show ?thesis by simp
  qed
  with sz show ?thesis
    by (simp add: st_resize_facts(1) [OF p] st_resize_facts(4) [OF p] st_search_ht_resize [OF i])
qed

theorem C4_witness:
  "''sum'' \<in> set [''variable1'', ''count'', ''sum'']
   \<and> capacity (st_resize (ht_after [''variable1'', ''count'', ''sum''])) = 20
   \<and> mset (ht_entries (st_resize (ht_after [''variable1'', ''count'', ''sum''])))
       = mset (ht_entries (ht_after [''variable1'', ''count'', ''sum'']))
   \<and> size_ht (st_resize (ht_after [''variable1'', ''count'', ''sum''])) = 3
   \<and> st_search_ht (st_resize (ht_after [''variable1'', ''count'', ''sum''])) ''sum'' = 2
   \<and> 0 \<le> st_search_ht (st_resize (ht_after [''variable1'', ''count'', ''sum''])) ''sum''"
proof -
  have "capacity (ht_after [''variable1'', ''count'', ''sum'']) = 10"
    by code_simp
  moreover have "size_ht (ht_after [''variable1'', ''count'', ''sum'']) = 3"
    by code_simp
  moreover have "st_search_ht (ht_after [''variable1'', ''count'', ''sum'']) ''sum'' = 2"
    by code_simp
  ultimately show ?thesis
    using C4_resize_preserves_contents [of "[''variable1'', ''count'', ''sum'']" "''sum''"]
    by simp
qed

text \<open>
  Claim C5. The claim: after every \<open>st_add\<close> on a table grown from a fresh one,
  \<open>size / capacity \<le> 0.75\<close>. The program compares the binary32 quotient
  \<^verbatim>\<open>(float)(size + 1) / capacity\<close> with 0.75. Up to 31457280 distinct names the
  comparison agrees with the exact one and the bound holds (\<open>load_inv_ht_after\<close>). With
  31457280 entries the capacity is 41943040; for the next name, 31457281 is rounded to
  31457280, the quotient is exactly 0.75, no resize takes place, and the table is left with
  \<open>4 * size > 3 * capacity\<close>. The theorem evaluates the program after any 31457281
  pairwise distinct names.
\<close>

theorem C5_load_factor_exceeded:
  assumes "distinct ns" and "length ns = 31457281"
  shows "size_ht (ht_after ns) = 31457281 \<and> capacity (ht_after ns) = 41943040
       \<and> 3 * capacity (ht_after ns) < 4 * size_ht (ht_after ns)
       \<and> LOAD_FACTOR_THRESHOLD
           < (of_int (size_ht (ht_after ns)) :: rat) / of_int (capacity (ht_after ns))"
proof -
  define xs n where "xs = butlast ns" and "n = last ns"
  have ns: "ns = xs @ [n]"
    using assms(2) by (cases ns rule: rev_cases) (simp_all add: xs_def n_def)
  with assms have xs: "distinct xs" "length xs = 31457280" "n \<notin> set xs"
    by simp_all
  define st where "st = ht_after xs"
  have l: "load_inv st" and sz: "size_ht st = 31457280"
    using ht_after_distinct [of xs] xs by (simp_all add: st_def)
  then have inv: "ht_inv st" by (simp add: load_inv_def)
  from l obtain k where k: "capacity st = 10 * 2 ^ k"
    by (auto simp: load_inv_def)
  from l sz have ge: "41943040 \<le> capacity st" and ne: "capacity st \<noteq> 10"
    by (simp_all add: load_inv_def)
  with l sz have "3 * capacity st < 251658240"
    by (simp add: load_inv_def)
  then have "(10::int) * 2 ^ k < 10 * 2 ^ Suc 22"
    by (simp add: k)
  then have "(10::int) * 2 ^ k \<le> 10 * 2 ^ 22"
    by (rule capacity_below)
  with ge have cap: "capacity st = 41943040"
    by (simp add: k)
  have "load_factor_of st = 3 / 4"
    using sz cap by (rule load_factor_at_31457280)
  then have nr: "maybe_resize st = st"
    by (simp add: maybe_resize_def LOAD_FACTOR_THRESHOLD_def)
  have new: "n \<notin> ht_names st"
    using xs(3) by (simp add: st_def ht_after_names)
  have "ht_after ns = snd (st_add_ht st n)"
    by (simp add: ns ht_after_def add_all_ht_append st_def case_prod_beta)
  also have "\<dots> = ht_insert st n"
    using inv new by (simp add: st_add_ht_absent nr)
  finally have "ht_after ns = ht_insert st n" .
  then show ?thesis
    by (simp add: ht_insert_fields sz cap LOAD_FACTOR_THRESHOLD_def)
qed

theorem C5_witness:
  "distinct (map symbol_name [0..<31457281]) \<and> length (map symbol_name [0..<31457281]) = 31457281
   \<and> size_ht (ht_after (map symbol_name [0..<31457281])) = 31457281
   \<and> capacity (ht_after (map symbol_name [0..<31457281])) = 41943040
   \<and> 3 * capacity (ht_after (map symbol_name [0..<31457281]))
       < 4 * size_ht (ht_after (map symbol_name [0..<31457281]))
   \<and> LOAD_FACTOR_THRESHOLD
       < (of_int (size_ht (ht_after (map symbol_name [0..<31457281]))) :: rat)
         / of_int (capacity (ht_after (map symbol_name [0..<31457281])))"
proof -
  have d: "distinct (map symbol_name [0..<31457281])"
    by (rule distinct_symbol_names)
  have l: "length (map symbol_name [0..<31457281]) = 31457281"
    by (simp only: length_map length_upt)
  from d l C5_load_factor_exceeded [OF d l] show ?thesis
    by blast
qed

text \<open>
  Claim C6. Starting from a fresh hash table (capacity 10) and adding 9 pairwise distinct
  names: the check \<^verbatim>\<open>(size + 1) / capacity > 0.75\<close>, made before the insertion, succeeds
  for the 8th name only (that is, in the table holding 7 names, where the quotient is 8 / 10 rounded to
  binary32); the capacity is 10 after
  each of the first 7 additions and 20 after the 8th and the 9th; the positions returned
  are \<open>0, \<dots>, 8\<close>, and afterwards \<open>st_search\<close> finds every name at its position.
\<close>

theorem C6_one_resize_at_eighth_add:
  assumes "distinct ns" and "length ns = 9"
  shows "(\<forall>k<9. (LOAD_FACTOR_THRESHOLD < load_factor_of (ht_after (take k ns))) = (k = 7))
       \<and> load_factor_of (ht_after (take 7 ns)) = float_round (8 / 10)
       \<and> (\<forall>k\<le>9. capacity (ht_after (take k ns)) = (if k < 8 then 10 else 20))
       \<and> fst (add_all_ht st_create_ht ns) = map int [0..<9]
       \<and> (\<forall>i<9. st_search_ht (ht_after ns) (ns ! i) = int i)"
proof -
  have st: "load_inv (ht_after (take k ns)) \<and> size_ht (ht_after (take k ns)) = int k"
    if "k \<le> 9" for k
    using ht_after_distinct [of "take k ns"] assms that by simp
  have check: "(LOAD_FACTOR_THRESHOLD < load_factor_of (ht_after (take k ns))) = (k = 7)"
    if "k < 9" for k
    using resize_check_small [of "ht_after (take k ns)"] st [of k] that by simp
  have cap: "capacity (ht_after (take k ns)) = (if k < 8 then 10 else 20)"
    if "k \<le> 9" for k
    using capacity_small [of "ht_after (take k ns)"]
      capacity_after_first_resize [of "ht_after (take k ns)"] st [of k] that
    by auto
  have np: "next_position st_create_ht = 0"
    by (simp add: st_create_ht_def)
  have disj: "set ns \<inter> ht_names st_create_ht = {}"
    by (simp add: ht_names_create)
  have pos: "fst (add_all_ht st_create_ht ns) = map int [0..<9]"
    using add_all_ht_distinct [OF ht_inv_create assms(1) disj] assms(2)
    by (simp add: np)
  have search: "st_search_ht (ht_after ns) (ns ! i) = int i" if "i < 9" for i
    using st_search_ht_add_all_nth [OF ht_inv_create assms(1) disj, of i] that assms(2)
    by (simp add: np ht_after_def)
  have "float_round (of_int 8) = (of_int 8 :: rat)" "float_round (of_int 10) = (of_int 10 :: rat)"
    by (rule float_round_of_int_small; simp)+
  then have lf: "load_factor_of (ht_after (take 7 ns)) = float_round (8 / 10)"
    using st [of 7] cap [of 7] by (simp add: load_factor_of_def)
  from check lf cap pos search show ?thesis by blast
qed

theorem C6_witness:
  "distinct [''variable1'', ''count'', ''sum'', ''array'', ''index'', ''result'', ''temp'',
      ''max'', ''min'']
   \<and> length [''variable1'', ''count'', ''sum'', ''array'', ''index'', ''result'', ''temp'',
      ''max'', ''min''] = 9
   \<and> LOAD_FACTOR_THRESHOLD < load_factor_of (ht_after
        [''variable1'', ''count'', ''sum'', ''array'', ''index'', ''result'', ''temp''])
   \<and> load_factor_of (ht_after
        [''variable1'', ''count'', ''sum'', ''array'', ''index'', ''result'', ''temp''])
       = 13421773 / 16777216
   \<and> \<not> LOAD_FACTOR_THRESHOLD < load_factor_of (ht_after
        [''variable1'', ''count'', ''sum'', ''array'', ''index'', ''result''])
   \<and> capacity (ht_after
        [''variable1'', ''count'', ''sum'', ''array'', ''index'', ''result'', ''temp'']) = 10
   \<and> capacity (ht_after
        [''variable1'', ''count'', ''sum'', ''array'', ''index'', ''result'', ''temp'',
         ''max'']) = 20
   \<and> capacity (ht_after
        [''variable1'', ''count'', ''sum'', ''array'', ''index'', ''result'', ''temp'',
         ''max'', ''min'']) = 20
   \<and> st_search_ht (ht_after
        [''variable1'', ''count'', ''sum'', ''array'', ''index'', ''result'', ''temp'',
         ''max'', ''min'']) ''min'' = 8"
proof -
  let ?ns = "[''variable1'', ''count'', ''sum'', ''array'', ''index'', ''result'', ''temp'',
      ''max'', ''min'']"
  have d: "distinct ?ns" by simp
  have l: "length ?ns = 9" by simp
  note c = C6_one_resize_at_eighth_add [OF d l]
  from c have chk: "\<forall>k<9. (LOAD_FACTOR_THRESHOLD < load_factor_of (ht_after (take k ?ns))) = (k = 7)"
    and cap: "\<forall>k\<le>9. capacity (ht_after (take k ?ns)) = (if k < 8 then 10 else 20)"
    and srch: "\<forall>i<9. st_search_ht (ht_after ?ns) (?ns ! i) = int i"
    and lf: "load_factor_of (ht_after (take 7 ?ns)) = float_round (8 / 10)"
    by blast+
  have v: "float_round (8 / 10) = 13421773 / 16777216"
    by code_simp
  have t6: "take 6 ?ns = [''variable1'', ''count'', ''sum'', ''array'', ''index'', ''result'']"
    and t7: "take 7 ?ns = [''variable1'', ''count'', ''sum'', ''array'', ''index'', ''result'', ''temp'']"
    and t8: "take 8 ?ns = [''variable1'', ''count'', ''sum'', ''array'', ''index'', ''result'', ''temp'', ''max'']"
    and t9: "take 9 ?ns = ?ns"
    and n8: "?ns ! 8 = ''min''"
    by simp_all
  from chk [rule_format, of 7] chk [rule_format, of 6]
    cap [rule_format, of 7] cap [rule_format, of 8] cap [rule_format, of 9]
    srch [rule_format, of 8] d l lf v
  show ?thesis
    unfolding t6 t7 t8 t9 n8 by simp
qed

text \<open>
  Claim C7. In every BST table reached from a fresh one by \<open>st_add\<close> calls, every node
  has only smaller names (with respect to \<open>strcmp\<close>) in its left subtree and only
  greater names in its right subtree; the names printed by the in-order traversal are
  strictly ascending with respect to \<open>strcmp\<close>, that is, in the lexicographic order of
  their bytes, without duplicates, and they are the names that were added.
\<close>

theorem C7_bst_ordered:
  "bst_ordered (root (bst_after ns))
   \<and> sorted_wrt (\<lambda>a b. strcmp a b < 0) (map fst (inorder_traversal (root (bst_after ns))))
   \<and> sorted_wrt (\<lambda>a b. (a, b) \<in> lexord {(x, y). (of_char x :: nat) < of_char y})
        (map fst (inorder_traversal (root (bst_after ns))))
   \<and> distinct (map fst (inorder_traversal (root (bst_after ns))))
   \<and> set (map fst (inorder_traversal (root (bst_after ns)))) = set ns"
proof -
  have o: "bst_ordered (root (bst_after ns))"
    using bst_after_inv [of ns] by (simp add: bst_inv_def)
  then have s: "sorted_wrt (\<lambda>a b. strcmp a b < 0) (map fst (inorder_traversal (root (bst_after ns))))"
    by (rule sorted_inorder)
  then have l: "sorted_wrt (\<lambda>a b. (a, b) \<in> lexord {(x, y). (of_char x :: nat) < of_char y})
        (map fst (inorder_traversal (root (bst_after ns))))"
    by (simp only: strcmp_lexord)
  from s have "distinct (map fst (inorder_traversal (root (bst_after ns))))"
    by (rule strcmp_sorted_distinct)
  with o s l show ?thesis
    using bst_after_names [of ns] by (simp add: names_of_inorder)
qed

theorem C7_witness:
  "bst_ordered (root (bst_after [''variable1'', ''count'', ''sum'', ''array'', ''index'']))
   \<and> sorted_wrt (\<lambda>a b. strcmp a b < 0)
        [''array'', ''count'', ''index'', ''sum'', ''variable1'']
   \<and> map fst (inorder_traversal
        (root (bst_after [''variable1'', ''count'', ''sum'', ''array'', ''index''])))
       = [''array'', ''count'', ''index'', ''sum'', ''variable1'']"
proof -
  have "map fst (inorder_traversal
        (root (bst_after [''variable1'', ''count'', ''sum'', ''array'', ''index''])))
       = [''array'', ''count'', ''index'', ''sum'', ''variable1'']"
    by code_simp
  with C7_bst_ordered [of "[''variable1'', ''count'', ''sum'', ''array'', ''index'']"]
  show ?thesis by simp
qed

text \<open>
  Claim C8. The claim: for every string and every positive capacity, \<open>hash_function\<close>
  returns the djb2 value of the string (seed 5381, then \<open>hash * 33 + c\<close> for each byte
  \<open>c\<close>, wrapping) modulo the capacity. The program reads each byte through a plain
  \<^verbatim>\<open>char\<close> into an \<^verbatim>\<open>int\<close>, so a byte above 127 is added as \<open>c - 256\<close>. For names
  of 7-bit characters the two agree (\<open>hash_function_djb2_ascii\<close>). The theorem evaluates
  the program on the one-byte name \<open>0xFF\<close> with capacity 10: the program adds \<open>-1\<close> to
  \<open>5381 * 33\<close> and returns bucket 2, whereas djb2 adds 255 and gives bucket 8.
\<close>

theorem C8_hash_function_on_high_byte:
  "char_to_int (CHR 0xFF) = - 1
   \<and> hash_loop 5381 [CHR 0xFF] = 177572
   \<and> unat (hash_function [CHR 0xFF] 10) = 2
   \<and> djb2 [CHR 0xFF] = 177828
   \<and> unat (djb2 [CHR 0xFF]) mod nat 10 = 8
   \<and> unat (hash_function [CHR 0xFF] 10) \<noteq> unat (djb2 [CHR 0xFF]) mod nat 10"
proof -
  have c: "char_to_int (CHR 0xFF) = - 1"
    by (simp add: char_to_int_def)
  have h: "hash_loop 5381 [CHR 0xFF] = 177572"
    by (simp add: char_to_int_def)
  have f: "unat (hash_function [CHR 0xFF] 10) = 2"
    by (simp add: hash_function_def char_to_int_def)
  have d: "djb2 [CHR 0xFF] = 177828"
    by (simp add: djb2_def djb2_step_def)
  have m: "unat (djb2 [CHR 0xFF]) mod nat 10 = 8"
    by (simp add: d)
  from c h f d m show ?thesis by simp
qed

text \<open>
  Claim C9. In every table reached from a fresh one by \<open>st_add\<close> calls, \<open>st_search\<close> for
  a name that was never added returns the sentinel \<open>-1\<close>, in both backends; it is an
  ordinary result of the (total) search functions.
\<close>

theorem C9_search_absent_name:
  assumes "n \<notin> set ns"
  shows "st_search_bst (bst_after ns) n = -1 \<and> st_search_ht (ht_after ns) n = -1"
proof
  from assms have "search_node (root (bst_after ns)) n = NULL"
    by (simp add: search_node_absent bst_after_names)
  then show "st_search_bst (bst_after ns) n = -1"
    by (simp add: st_search_bst_alt)
  from assms show "st_search_ht (ht_after ns) n = -1"
    using st_search_ht_eq_minus1 [OF ht_after_inv, of ns n]
    by (simp add: ht_after_names [symmetric] ht_names_def)
qed

theorem C9_witness:
  "''nonexistent'' \<notin> set [''variable1'', ''count'', ''sum'', ''array'', ''index'']
   \<and> st_search_bst (bst_after [''variable1'', ''count'', ''sum'', ''array'', ''index''])
        ''nonexistent'' = -1
   \<and> st_search_ht (ht_after [''variable1'', ''count'', ''sum'', ''array'', ''index''])
        ''nonexistent'' = -1"
proof -
  have h: "''nonexistent'' \<notin> set [''variable1'', ''count'', ''sum'', ''array'', ''index'']"
    by simp
  from h C9_search_absent_name [OF h] show ?thesis
    by (simp only: simp_thms)
qed

text \<open>
  Claim C10. In every hash table reached from a fresh one by \<open>st_add\<close> calls the
  capacity is positive, of the form \<open>10 * 2 ^ k\<close>, and equal to the length of the bucket
  array, and \<open>hash_function\<close> returns for every string an index below it; the same holds
  for the table \<open>st_resize\<close> produces. So the indices used by \<open>st_search\<close>, \<open>st_add\<close> and
  \<open>st_resize\<close> lie within the bucket array. (The capacity is a mathematical integer
  here; by \<open>ht_after_int_range\<close> it is below \<open>2 ^ 31\<close>, as a C \<^verbatim>\<open>int\<close> has to be,
  for every table with up to 503316480 names.)
\<close>

theorem C10_bucket_accesses_in_bounds:
  "0 < capacity (ht_after ns)
   \<and> (\<exists>k. capacity (ht_after ns) = 10 * 2 ^ k)
   \<and> length (buckets (ht_after ns)) = nat (capacity (ht_after ns))
   \<and> unat (hash_function s (capacity (ht_after ns))) < length (buckets (ht_after ns))
   \<and> length (buckets (st_resize (ht_after ns))) = nat (capacity (st_resize (ht_after ns)))
   \<and> unat (hash_function s (capacity (st_resize (ht_after ns))))
       < length (buckets (st_resize (ht_after ns)))"
proof -
  have p: "ht_placed (ht_after ns)"
    using ht_after_inv [of ns] by (simp add: ht_inv_def)
  have p': "ht_placed (st_resize (ht_after ns))"
    using p by (rule st_resize_facts(3))
  have "\<exists>k. capacity (ht_after ns) = 10 * 2 ^ k"
    using add_all_ht_capacity [OF ht_inv_create, of ns]
    by (simp add: ht_after_def st_create_ht_def INITIAL_TABLE_SIZE_def)
  with p p' index_in_range [OF p, of s] index_in_range [OF p', of s] show ?thesis
    by (simp add: ht_placed_def)
qed

theorem C10_witness:
  "capacity (ht_after [''variable1'', ''count'', ''sum'']) = 10
   \<and> length (buckets (ht_after [''variable1'', ''count'', ''sum''])) = 10
   \<and> unat (hash_function ''sum'' 10) = 2
   \<and> unat (hash_function ''sum'' (capacity (ht_after [''variable1'', ''count'', ''sum''])))
       < length (buckets (ht_after [''variable1'', ''count'', ''sum'']))
   \<and> unat (hash_function ''sum''
         (capacity (st_resize (ht_after [''variable1'', ''count'', ''sum'']))))
       < length (buckets (st_resize (ht_after [''variable1'', ''count'', ''sum''])))"
proof -
  have "capacity (ht_after [''variable1'', ''count'', ''sum'']) = 10"
    by code_simp
  moreover have "unat (hash_function ''sum'' 10) = 2"
    by code_simp
  ultimately show ?thesis
    using C10_bucket_accesses_in_bounds [of "[''variable1'', ''count'', ''sum'']" "''sum''"]
    by simp
qed

end
